theory Spec2Isabelle
  imports Main
begin

section \<open>Data model of main.go\<close>

text \<open>
  \<^verbatim>\<open>PieceType\<close> and \<^verbatim>\<open>Player\<close> are the two Go enumerations. The Go constant
  \<^verbatim>\<open>None\<close> of \<^verbatim>\<open>Player\<close> is written \<open>NoneP\<close> here, because \<open>None\<close> is the
  constructor of \<open>option\<close>.
\<close>

datatype PieceType =
  Empty | King | Gold | Silver | Bishop | Rook | Pawn
  | PromotedSilver | PromotedBishop | PromotedRook | PromotedPawn

datatype Player = NoneP | First | Second

record Piece =
  Type :: PieceType
  Owner :: Player

text \<open>
  A Go array \<^verbatim>\<open>[5]T\<close> is a value of exactly five elements. Indexing is by \<^verbatim>\<open>int\<close>;
  an index outside 0..4 panics in Go. Every function below that indexes with a
  coordinate it did not check itself returns \<open>None\<close> for that panic, so \<open>get5\<close> and
  \<open>set5\<close> are only ever applied to indices 0..4.
\<close>

datatype 'a arr5 = Arr5 'a 'a 'a 'a 'a

fun get5 :: "'a arr5 \<Rightarrow> int \<Rightarrow> 'a" where
  "get5 (Arr5 a0 a1 a2 a3 a4) i =
     (if i = 0 then a0 else if i = 1 then a1 else if i = 2 then a2
      else if i = 3 then a3 else if i = 4 then a4 else undefined)"

fun set5 :: "'a arr5 \<Rightarrow> int \<Rightarrow> 'a \<Rightarrow> 'a arr5" where
  "set5 (Arr5 a0 a1 a2 a3 a4) i v =
     (if i = 0 then Arr5 v a1 a2 a3 a4 else if i = 1 then Arr5 a0 v a2 a3 a4
      else if i = 2 then Arr5 a0 a1 v a3 a4 else if i = 3 then Arr5 a0 a1 a2 v a4
      else if i = 4 then Arr5 a0 a1 a2 a3 v else undefined)"

record Board =
  Cells :: "Piece arr5 arr5"
  FirstHand :: "PieceType list"
  SecondHand :: "PieceType list"
  CurrentTurn :: Player

record Move =
  FromRow :: int
  FromCol :: int
  ToRow :: int
  ToCol :: int
  IsDrop :: bool
  DropPiece :: PieceType
  Promote :: bool

text \<open>The positional struct literal \<^verbatim>\<open>Move{fr, fc, tr, tc, isDrop, dropPiece, promote}\<close>.\<close>

abbreviation Mv :: "int \<Rightarrow> int \<Rightarrow> int \<Rightarrow> int \<Rightarrow> bool \<Rightarrow> PieceType \<Rightarrow> bool \<Rightarrow> Move" where
  "Mv fr fc tr tc isd dp pr \<equiv>
     \<lparr>FromRow = fr, FromCol = fc, ToRow = tr, ToCol = tc, IsDrop = isd, DropPiece = dp, Promote = pr\<rparr>"

abbreviation Pc :: "PieceType \<Rightarrow> Player \<Rightarrow> Piece" where
  "Pc t ow \<equiv> \<lparr>Type = t, Owner = ow\<rparr>"

definition cell :: "Board \<Rightarrow> int \<Rightarrow> int \<Rightarrow> Piece" where
  "cell b r c = get5 (get5 (Cells b) r) c"

definition setCell :: "Board \<Rightarrow> int \<Rightarrow> int \<Rightarrow> Piece \<Rightarrow> Board" where
  "setCell b r c p = b\<lparr>Cells := set5 (Cells b) r (set5 (get5 (Cells b) r) c p)\<rparr>"

text \<open>The index range of the loops \<^verbatim>\<open>for r := 0; r < 5; r++\<close>, and the 25 cells in the
  row-major order of the nested loops.\<close>

definition idx5 :: "int list" where
  "idx5 = [0, 1, 2, 3, 4]"

definition allCells :: "(int \<times> int) list" where
  "allCells = List.product idx5 idx5"

subsection \<open>NewBoard\<close>

definition emptyRow :: "Piece arr5" where
  "emptyRow = Arr5 (Pc Empty NoneP) (Pc Empty NoneP) (Pc Empty NoneP) (Pc Empty NoneP) (Pc Empty NoneP)"

definition NewBoard :: Board where
  "NewBoard =
     \<lparr>Cells = Arr5
        (Arr5 (Pc Rook Second) (Pc Bishop Second) (Pc Silver Second) (Pc Gold Second) (Pc King Second))
        (Arr5 (Pc Empty NoneP) (Pc Empty NoneP) (Pc Empty NoneP) (Pc Empty NoneP) (Pc Pawn Second))
        emptyRow
        (Arr5 (Pc Pawn First) (Pc Empty NoneP) (Pc Empty NoneP) (Pc Empty NoneP) (Pc Empty NoneP))
        (Arr5 (Pc King First) (Pc Gold First) (Pc Silver First) (Pc Bishop First) (Pc Rook First)),
      FirstHand = [], SecondHand = [], CurrentTurn = First\<rparr>"

subsection \<open>Helper functions\<close>

definition isInBoard :: "int \<Rightarrow> int \<Rightarrow> bool" where
  "isInBoard row col \<longleftrightarrow> row \<ge> 0 \<and> row < 5 \<and> col \<ge> 0 \<and> col < 5"

definition isValidMove :: "Board \<Rightarrow> int \<Rightarrow> int \<Rightarrow> int \<Rightarrow> int \<Rightarrow> bool" where
  "isValidMove b fromRow fromCol toRow toCol =
     (if \<not> isInBoard toRow toCol then False
      else Owner (cell b toRow toCol) \<noteq> Owner (cell b fromRow fromCol))"

definition canPromote :: "Player \<Rightarrow> int \<Rightarrow> bool" where
  "canPromote player row = (if player = First then row \<le> 0 else row \<ge> 4)"

definition getGoldMoves :: "Player \<Rightarrow> (int \<times> int) list" where
  "getGoldMoves player =
     (if player = First then [(-1, -1), (-1, 0), (-1, 1), (0, -1), (0, 1), (1, 0)]
      else [(1, -1), (1, 0), (1, 1), (0, -1), (0, 1), (-1, 0)])"

definition getSilverMoves :: "Player \<Rightarrow> (int \<times> int) list" where
  "getSilverMoves player =
     (if player = First then [(-1, -1), (-1, 0), (-1, 1), (1, -1), (1, 1)]
      else [(1, -1), (1, 0), (1, 1), (-1, -1), (-1, 1)])"

definition hasPawnInColumn :: "Board \<Rightarrow> int \<Rightarrow> Player \<Rightarrow> bool" where
  "hasPawnInColumn b col player =
     list_ex (\<lambda>r. Owner (cell b r col) = player \<and> Type (cell b r col) = Pawn) idx5"

subsection \<open>GetPossibleMoves\<close>

text \<open>The loop over a direction table that the King, Gold, PromotedBishop and PromotedRook
  branches share: one step, kept when \<^verbatim>\<open>isValidMove\<close> holds, never promoting.\<close>

definition stepMoves :: "Board \<Rightarrow> int \<Rightarrow> int \<Rightarrow> (int \<times> int) list \<Rightarrow> Move list" where
  "stepMoves b row col dirs =
     concat (map (\<lambda>d. let nr = row + fst d; nc = col + snd d in
                       if isValidMove b row col nr nc then [Mv row col nr nc False Empty False]
                       else []) dirs)"

text \<open>The Silver loop: the promoting variant is appended before the plain one.\<close>

definition silverMoves :: "Board \<Rightarrow> Piece \<Rightarrow> int \<Rightarrow> int \<Rightarrow> (int \<times> int) list \<Rightarrow> Move list" where
  "silverMoves b piece row col dirs =
     concat (map (\<lambda>d. let nr = row + fst d; nc = col + snd d in
                       if isValidMove b row col nr nc then
                         (if canPromote (Owner piece) nr then [Mv row col nr nc False Empty True] else [])
                         @ [Mv row col nr nc False Empty False]
                       else []) dirs)"

text \<open>The inner loop \<^verbatim>\<open>for i := 1; i < 5; i++\<close> of the Bishop and Rook branches along one
  direction \<open>d\<close>; \<open>pk\<close> is the kind that may promote (\<^verbatim>\<open>Bishop\<close> or \<^verbatim>\<open>Rook\<close>). The three
  \<^verbatim>\<open>break\<close>s end the recursion.\<close>

fun slide :: "Board \<Rightarrow> Piece \<Rightarrow> PieceType \<Rightarrow> int \<Rightarrow> int \<Rightarrow> int \<times> int \<Rightarrow> int list \<Rightarrow> Move list" where
  "slide b piece pk row col d [] = []"
| "slide b piece pk row col d (i # is) =
     (let nr = row + fst d * i; nc = col + snd d * i in
      if \<not> isInBoard nr nc then []
      else if Owner (cell b nr nc) = Owner piece then []
      else (if Type piece = pk \<and> canPromote (Owner piece) nr
            then [Mv row col nr nc False Empty True] else [])
           @ [Mv row col nr nc False Empty False]
           @ (if Owner (cell b nr nc) \<noteq> NoneP then [] else slide b piece pk row col d is))"

definition slideMoves :: "Board \<Rightarrow> Piece \<Rightarrow> PieceType \<Rightarrow> int \<Rightarrow> int \<Rightarrow> (int \<times> int) list \<Rightarrow> Move list" where
  "slideMoves b piece pk row col dirs =
     concat (map (\<lambda>d. slide b piece pk row col d [1, 2, 3, 4]) dirs)"

definition pawnMoves :: "Board \<Rightarrow> Piece \<Rightarrow> int \<Rightarrow> int \<Rightarrow> Move list" where
  "pawnMoves b piece row col =
     (let dir = (if Owner piece = Second then 1 else -1); nr = row + dir in
      if isValidMove b row col nr col then
        (if canPromote (Owner piece) nr then [Mv row col nr col False Empty True] else [])
        @ [Mv row col nr col False Empty False]
      else [])"

definition diagDirs :: "(int \<times> int) list" where
  "diagDirs = [(-1, -1), (-1, 1), (1, -1), (1, 1)]"

text \<open>\<open>None\<close> is the index-out-of-range panic of \<^verbatim>\<open>b.Cells[row][col]\<close>.\<close>

definition GetPossibleMoves :: "Board \<Rightarrow> int \<Rightarrow> int \<Rightarrow> Move list option" where
  "GetPossibleMoves b row col =
     (if \<not> isInBoard row col then None
      else let piece = cell b row col in
        if Owner piece = NoneP \<or> Owner piece \<noteq> CurrentTurn b then Some []
        else Some (case Type piece of
            King \<Rightarrow> stepMoves b row col
                      [(-1, -1), (-1, 0), (-1, 1), (0, -1), (0, 1), (1, -1), (1, 0), (1, 1)]
          | Gold \<Rightarrow> stepMoves b row col (getGoldMoves (Owner piece))
          | PromotedSilver \<Rightarrow> stepMoves b row col (getGoldMoves (Owner piece))
          | PromotedPawn \<Rightarrow> stepMoves b row col (getGoldMoves (Owner piece))
          | Silver \<Rightarrow> silverMoves b piece row col (getSilverMoves (Owner piece))
          | Bishop \<Rightarrow> slideMoves b piece Bishop row col diagDirs
          | PromotedBishop \<Rightarrow>
              slideMoves b piece Bishop row col diagDirs
              @ stepMoves b row col [(-1, 0), (0, -1), (0, 1), (1, 0)]
          | Rook \<Rightarrow> slideMoves b piece Rook row col [(-1, 0), (1, 0), (0, -1), (0, 1)]
          | PromotedRook \<Rightarrow>
              slideMoves b piece Rook row col [(-1, 0), (1, 0), (0, -1), (0, 1)]
              @ stepMoves b row col diagDirs
          | Pawn \<Rightarrow> pawnMoves b piece row col
          | Empty \<Rightarrow> []))"

subsection \<open>GetDropMoves\<close>

text \<open>
  \<^verbatim>\<open>uniquePieces\<close> is a Go map used as a set, and \<^verbatim>\<open>for pType := range uniquePieces\<close>
  visits each key once, in an order the Go runtime chooses afresh at every \<^verbatim>\<open>range\<close>.
  The choice is a parameter of the model: a ranking \<open>rk\<close> of the kinds, the keys being
  visited by increasing rank. Every enumeration of the key set is the one of some ranking
  (lemma \<open>rangeKeys_any_order\<close>).
\<close>

type_synonym mapOrder = "PieceType \<Rightarrow> nat"

definition rangeKeys :: "mapOrder \<Rightarrow> PieceType list \<Rightarrow> PieceType list" where
  "rangeKeys rk hand = sort_key rk (remdups hand)"

definition moverHand :: "Board \<Rightarrow> PieceType list" where
  "moverHand b = (if CurrentTurn b = Second then SecondHand b else FirstHand b)"

definition dropsOf :: "Board \<Rightarrow> PieceType \<Rightarrow> Move list" where
  "dropsOf b pType =
     concat (map (\<lambda>r. concat (map (\<lambda>c.
       if Owner (cell b r c) = NoneP then
         (if pType = Pawn \<and> hasPawnInColumn b c (CurrentTurn b) then []
          else if pType = Pawn \<and> ((CurrentTurn b = First \<and> r = 0) \<or> (CurrentTurn b = Second \<and> r = 4))
          then []
          else [Mv (-1) (-1) r c True pType False])
       else []) idx5)) idx5)"

definition GetDropMoves :: "mapOrder \<Rightarrow> Board \<Rightarrow> Move list" where
  "GetDropMoves rk b = concat (map (dropsOf b) (rangeKeys rk (moverHand b)))"

subsection \<open>GetAllLegalMoves\<close>

fun boardMovesFrom :: "Board \<Rightarrow> (int \<times> int) list \<Rightarrow> Move list option" where
  "boardMovesFrom b [] = Some []"
| "boardMovesFrom b ((r, c) # rest) =
     (if Owner (cell b r c) = CurrentTurn b then
        (case GetPossibleMoves b r c of
           None \<Rightarrow> None
         | Some ms \<Rightarrow> (case boardMovesFrom b rest of None \<Rightarrow> None | Some ms' \<Rightarrow> Some (ms @ ms')))
      else boardMovesFrom b rest)"

definition GetAllLegalMoves :: "mapOrder \<Rightarrow> Board \<Rightarrow> Move list option" where
  "GetAllLegalMoves rk b =
     (case boardMovesFrom b allCells of
        None \<Rightarrow> None
      | Some ms \<Rightarrow> Some (ms @ GetDropMoves rk b))"

subsection \<open>MakeMove\<close>

text \<open>
  \<^verbatim>\<open>MakeMove\<close> mutates the board and always returns \<^verbatim>\<open>true\<close>; the model returns the
  mutated board, and \<open>None\<close> where an index of the move is out of range (a panic).
  The hands are values here: the Go code changes the hand slices of the board it is given,
  and \<^verbatim>\<open>Minimax\<close> hands it a board with hand slices of its own.
\<close>

definition flipTurn :: "Board \<Rightarrow> Board" where
  "flipTurn b = (if CurrentTurn b = First then b\<lparr>CurrentTurn := Second\<rparr> else b\<lparr>CurrentTurn := First\<rparr>)"

definition MakeMove :: "Board \<Rightarrow> Move \<Rightarrow> Board option" where
  "MakeMove b move =
     (if IsDrop move then
        (if \<not> isInBoard (ToRow move) (ToCol move) then None
         else
           let b1 = setCell b (ToRow move) (ToCol move) (Pc (DropPiece move) (CurrentTurn b));
               b2 = (if CurrentTurn b = Second
                     then b1\<lparr>SecondHand := remove1 (DropPiece move) (SecondHand b1)\<rparr>
                     else b1\<lparr>FirstHand := remove1 (DropPiece move) (FirstHand b1)\<rparr>)
           in Some (flipTurn b2))
      else
        (if \<not> isInBoard (FromRow move) (FromCol move) \<or> \<not> isInBoard (ToRow move) (ToCol move)
         then None
         else
           let piece = cell b (FromRow move) (FromCol move);
               captured = cell b (ToRow move) (ToCol move);
               b1 = (if Owner captured \<noteq> NoneP then
                       (let capturedType =
                              (case Type captured of
                                 PromotedSilver \<Rightarrow> Silver
                               | PromotedBishop \<Rightarrow> Bishop
                               | PromotedRook \<Rightarrow> Rook
                               | PromotedPawn \<Rightarrow> Pawn
                               | t \<Rightarrow> t)
                        in if CurrentTurn b = First
                           then b\<lparr>FirstHand := FirstHand b @ [capturedType]\<rparr>
                           else b\<lparr>SecondHand := SecondHand b @ [capturedType]\<rparr>)
                     else b);
               piece' = (if Promote move then
                           (case Type piece of
                              Silver \<Rightarrow> piece\<lparr>Type := PromotedSilver\<rparr>
                            | Bishop \<Rightarrow> piece\<lparr>Type := PromotedBishop\<rparr>
                            | Rook \<Rightarrow> piece\<lparr>Type := PromotedRook\<rparr>
                            | Pawn \<Rightarrow> piece\<lparr>Type := PromotedPawn\<rparr>
                            | _ \<Rightarrow> piece)
                         else piece);
               b2 = setCell b1 (ToRow move) (ToCol move) piece';
               b3 = setCell b2 (FromRow move) (FromCol move) (Pc Empty NoneP)
           in Some (flipTurn b3)))"

subsection \<open>IsGameOver and Evaluate\<close>

definition hasKing :: "Board \<Rightarrow> Player \<Rightarrow> bool" where
  "hasKing b p = list_ex (\<lambda>(r, c). Type (cell b r c) = King \<and> Owner (cell b r c) = p) allCells"

definition IsGameOver :: "Board \<Rightarrow> bool \<times> Player" where
  "IsGameOver b =
     (let firstKing = hasKing b First; secondKing = hasKing b Second in
      if \<not> firstKing then (True, Second)
      else if \<not> secondKing then (True, First)
      else (False, NoneP))"

text \<open>The map \<^verbatim>\<open>pieceValues\<close>; a key that is absent (\<^verbatim>\<open>Empty\<close>) reads as 0 in Go.\<close>

fun pieceValues :: "PieceType \<Rightarrow> int" where
  "pieceValues King = 10000"
| "pieceValues Gold = 600"
| "pieceValues Silver = 500"
| "pieceValues Bishop = 800"
| "pieceValues Rook = 900"
| "pieceValues Pawn = 100"
| "pieceValues PromotedSilver = 600"
| "pieceValues PromotedBishop = 1000"
| "pieceValues PromotedRook = 1100"
| "pieceValues PromotedPawn = 600"
| "pieceValues Empty = 0"

definition cellScore :: "Piece \<Rightarrow> int" where
  "cellScore piece =
     (if Owner piece = First then pieceValues (Type piece)
      else if Owner piece = Second then - pieceValues (Type piece) else 0)"

definition Evaluate :: "Board \<Rightarrow> int" where
  "Evaluate b =
     sum_list (map (\<lambda>(r, c). cellScore (cell b r c)) allCells)
     + sum_list (map (\<lambda>p. pieceValues p * 8 div 10) (FirstHand b))
     - sum_list (map (\<lambda>p. pieceValues p * 8 div 10) (SecondHand b))"

section \<open>Notions of the specification\<close>

text \<open>The number of Kings a player has on the board.\<close>

definition kingsOf :: "Board \<Rightarrow> Player \<Rightarrow> nat" where
  "kingsOf b p = length (filter (\<lambda>(r, c). Type (cell b r c) = King \<and> Owner (cell b r c) = p) allCells)"

text \<open>The promotion zone as the specification words it.\<close>

definition promotionZone :: "Player \<Rightarrow> int \<Rightarrow> bool" where
  "promotionZone p row \<longleftrightarrow> (p = First \<and> row \<le> 0) \<or> (p = Second \<and> row \<ge> 4)"
text \<open>The base (demoted) kind of a piece kind, as the specification gives it: each promoted
  kind has one base kind, every other kind is its own.\<close>

fun baseKind :: "PieceType \<Rightarrow> PieceType" where
  "baseKind PromotedSilver = Silver"
| "baseKind PromotedBishop = Bishop"
| "baseKind PromotedRook = Rook"
| "baseKind PromotedPawn = Pawn"
| "baseKind k = k"

subsection \<open>Concrete positions used as inputs\<close>

text \<open>A board with no piece at all.\<close>

definition emptyBoard :: Board where
  "emptyBoard =
     \<lparr>Cells = Arr5 emptyRow emptyRow emptyRow emptyRow emptyRow,
      FirstHand = [], SecondHand = [], CurrentTurn = First\<rparr>"

text \<open>The initial position with First's Pawn advanced to row 1, in front of Second's Rook.\<close>

definition pawnAtGate :: Board where
  "pawnAtGate = setCell (setCell NewBoard 3 0 (Pc Empty NoneP)) 1 0 (Pc Pawn First)"


subsection \<open>Reachable states and material\<close>

text \<open>The states of play: the initial position, and every state that \<^verbatim>\<open>MakeMove\<close> produces
  from a reachable state and a move of \<^verbatim>\<open>GetAllLegalMoves\<close> (for any iteration order
  \<open>rk\<close> of the hand's kinds).\<close>

inductive reachable :: "Board \<Rightarrow> bool" where
  init: "reachable NewBoard"
| step: "reachable b \<Longrightarrow> GetAllLegalMoves rk b = Some ms \<Longrightarrow> m \<in> set ms
         \<Longrightarrow> MakeMove b m = Some b' \<Longrightarrow> reachable b'"

text \<open>What every generated board move has: it starts at the cell asked for, is no drop, and
  ends on a cell of the board that the mover's own pieces do not occupy.\<close>

definition boardMoveOk :: "Board \<Rightarrow> int \<Rightarrow> int \<Rightarrow> Move \<Rightarrow> bool" where
  "boardMoveOk b row col m \<longleftrightarrow>
     FromRow m = row \<and> FromCol m = col \<and> \<not> IsDrop m \<and> isInBoard (ToRow m) (ToCol m)
     \<and> Owner (cell b (ToRow m) (ToCol m)) \<noteq> Owner (cell b row col)"

text \<open>A legal move is either a board move of one of the mover's pieces, or a drop of a kind
  of the mover's hand onto an empty cell.\<close>

definition legalShape :: "Board \<Rightarrow> Move \<Rightarrow> bool" where
  "legalShape b m \<longleftrightarrow>
     (\<not> IsDrop m \<and> isInBoard (FromRow m) (FromCol m) \<and> isInBoard (ToRow m) (ToCol m)
        \<and> Owner (cell b (FromRow m) (FromCol m)) = CurrentTurn b \<and> CurrentTurn b \<noteq> NoneP
        \<and> Owner (cell b (ToRow m) (ToCol m)) \<noteq> CurrentTurn b)
     \<or> (IsDrop m \<and> isInBoard (ToRow m) (ToCol m) \<and> Owner (cell b (ToRow m) (ToCol m)) = NoneP
        \<and> DropPiece m \<in> set (moverHand b))"

text \<open>Sums over the 25 cells, and the total weight of the pieces of a state: each piece on
  the board (a cell whose owner is not \<^verbatim>\<open>None\<close>) and each entry of the two hands counts
  \<open>w\<close> of its kind.\<close>

definition boardSum :: "(Piece \<Rightarrow> nat) \<Rightarrow> Board \<Rightarrow> nat" where
  "boardSum g b = sum_list (map (\<lambda>(r, c). g (cell b r c)) allCells)"

definition onBoard :: "(PieceType \<Rightarrow> nat) \<Rightarrow> Piece \<Rightarrow> nat" where
  "onBoard w p = (if Owner p \<noteq> NoneP then w (Type p) else 0)"

definition weight :: "(PieceType \<Rightarrow> nat) \<Rightarrow> Board \<Rightarrow> nat" where
  "weight w b = boardSum (onBoard w) b + sum_list (map w (FirstHand b)) + sum_list (map w (SecondHand b))"

text \<open>The number of pieces of kind \<open>k\<close> on the board and in both hands; the number of
  pieces whose base kind is \<open>k\<close>; and the number of all pieces.\<close>

definition kindCount :: "PieceType \<Rightarrow> Board \<Rightarrow> nat" where
  "kindCount k b = weight (\<lambda>t. if t = k then 1 else 0) b"

definition baseCount :: "PieceType \<Rightarrow> Board \<Rightarrow> nat" where
  "baseCount k b = weight (\<lambda>t. if baseKind t = k then 1 else 0) b"

definition pieceCount :: "Board \<Rightarrow> nat" where
  "pieceCount b = weight (\<lambda>t. 1) b"

text \<open>The position after First's Bishop went to \<open>(2, 1)\<close>, Second's Pawn advanced, and the
  Bishop took the Gold on \<open>(0, 3)\<close> and promoted.\<close>

definition bishopOut :: Board where
  "bishopOut =
     \<lparr>Cells = Arr5
        (Arr5 (Pc Rook Second) (Pc Bishop Second) (Pc Silver Second) (Pc Gold Second) (Pc King Second))
        (Arr5 (Pc Empty NoneP) (Pc Empty NoneP) (Pc Empty NoneP) (Pc Empty NoneP) (Pc Pawn Second))
        (Arr5 (Pc Empty NoneP) (Pc Bishop First) (Pc Empty NoneP) (Pc Empty NoneP) (Pc Empty NoneP))
        (Arr5 (Pc Pawn First) (Pc Empty NoneP) (Pc Empty NoneP) (Pc Empty NoneP) (Pc Empty NoneP))
        (Arr5 (Pc King First) (Pc Gold First) (Pc Silver First) (Pc Empty NoneP) (Pc Rook First)),
      FirstHand = [], SecondHand = [], CurrentTurn = Second\<rparr>"

definition pawnUp :: Board where
  "pawnUp =
     \<lparr>Cells = Arr5
        (Arr5 (Pc Rook Second) (Pc Bishop Second) (Pc Silver Second) (Pc Gold Second) (Pc King Second))
        emptyRow
        (Arr5 (Pc Empty NoneP) (Pc Bishop First) (Pc Empty NoneP) (Pc Empty NoneP) (Pc Pawn Second))
        (Arr5 (Pc Pawn First) (Pc Empty NoneP) (Pc Empty NoneP) (Pc Empty NoneP) (Pc Empty NoneP))
        (Arr5 (Pc King First) (Pc Gold First) (Pc Silver First) (Pc Empty NoneP) (Pc Rook First)),
      FirstHand = [], SecondHand = [], CurrentTurn = First\<rparr>"

definition bishopPromoted :: Board where
  "bishopPromoted =
     \<lparr>Cells = Arr5
        (Arr5 (Pc Rook Second) (Pc Bishop Second) (Pc Silver Second) (Pc PromotedBishop First) (Pc King Second))
        emptyRow
        (Arr5 (Pc Empty NoneP) (Pc Empty NoneP) (Pc Empty NoneP) (Pc Empty NoneP) (Pc Pawn Second))
        (Arr5 (Pc Pawn First) (Pc Empty NoneP) (Pc Empty NoneP) (Pc Empty NoneP) (Pc Empty NoneP))
        (Arr5 (Pc King First) (Pc Gold First) (Pc Silver First) (Pc Empty NoneP) (Pc Rook First)),
      FirstHand = [Gold], SecondHand = [], CurrentTurn = Second\<rparr>"

section \<open>The search\<close>

text \<open>
  One call of \<^verbatim>\<open>Minimax\<close> visits a tree of positions, and at each of them
  \<^verbatim>\<open>GetAllLegalMoves\<close> ranges over the map of the hand's kinds once. A \<open>schedule\<close> gives
  the iteration order that the runtime takes at the node reached from the root by a path
  of moves; \<open>sch []\<close> is the order at the root, and the child reached by \<open>move\<close> runs
  under \<open>\<lambda>p. sch (move # p)\<close>. The moves of one list are pairwise different, so a path
  names one node, and every run of the Go code is the model's under some schedule.

  \<^verbatim>\<open>depth\<close> is a natural number: the callers pass 3 and the recursion counts down to 0.
  (A negative \<^verbatim>\<open>depth\<close> never meets \<^verbatim>\<open>depth == 0\<close>; no caller passes one.)
  The result is \<open>None\<close> when a \<^verbatim>\<open>MakeMove\<close> panics; the \<^verbatim>\<open>*Move\<close> result is an
  \<open>option\<close>, \<^verbatim>\<open>nil\<close> being \<open>None\<close>. The two loops over \<^verbatim>\<open>moves\<close> are \<open>maxLoop\<close> and
  \<open>minLoop\<close>, with the loop variables \<^verbatim>\<open>alpha\<close>/\<^verbatim>\<open>beta\<close>, \<^verbatim>\<open>maxEval\<close>/\<^verbatim>\<open>minEval\<close> and
  \<^verbatim>\<open>bestMove\<close> as arguments. \<^verbatim>\<open>newBoard\<close> is a value here: the Go code copies the
  struct and both hand slices before it calls \<^verbatim>\<open>MakeMove\<close>.
\<close>

type_synonym schedule = "Move list \<Rightarrow> mapOrder"

function Minimax :: "schedule \<Rightarrow> nat \<Rightarrow> int \<Rightarrow> int \<Rightarrow> bool \<Rightarrow> Board \<Rightarrow> (int \<times> Move option) option"
  and maxLoop :: "schedule \<Rightarrow> nat \<Rightarrow> Board \<Rightarrow> Move list \<Rightarrow> int \<Rightarrow> int \<Rightarrow> int \<Rightarrow> Move option
                   \<Rightarrow> (int \<times> Move option) option"
  and minLoop :: "schedule \<Rightarrow> nat \<Rightarrow> Board \<Rightarrow> Move list \<Rightarrow> int \<Rightarrow> int \<Rightarrow> int \<Rightarrow> Move option
                   \<Rightarrow> (int \<times> Move option) option"
  where
  "Minimax sch 0 alpha beta maximizing b = Some (Evaluate b, None)"
| "Minimax sch (Suc d) alpha beta maximizing b =
     (if fst (IsGameOver b) then Some (Evaluate b, None)
      else case GetAllLegalMoves (sch []) b of
             None \<Rightarrow> None
           | Some moves \<Rightarrow>
               if moves = [] then Some (Evaluate b, None)
               else if maximizing then maxLoop sch d b moves alpha beta (-999999) None
               else minLoop sch d b moves alpha beta 999999 None)"
| "maxLoop sch d b [] alpha beta maxEval bestMove = Some (maxEval, bestMove)"
| "maxLoop sch d b (move # rest) alpha beta maxEval bestMove =
     (case MakeMove b move of
        None \<Rightarrow> None
      | Some newBoard \<Rightarrow>
          (case Minimax (\<lambda>p. sch (move # p)) d alpha beta False newBoard of
             None \<Rightarrow> None
           | Some (eval, _) \<Rightarrow>
               let maxEval' = (if eval > maxEval then eval else maxEval);
                   bestMove' = (if eval > maxEval then Some move else bestMove);
                   alpha' = max alpha eval
               in if beta \<le> alpha' then Some (maxEval', bestMove')
                  else maxLoop sch d b rest alpha' beta maxEval' bestMove'))"
| "minLoop sch d b [] alpha beta minEval bestMove = Some (minEval, bestMove)"
| "minLoop sch d b (move # rest) alpha beta minEval bestMove =
     (case MakeMove b move of
        None \<Rightarrow> None
      | Some newBoard \<Rightarrow>
          (case Minimax (\<lambda>p. sch (move # p)) d alpha beta True newBoard of
             None \<Rightarrow> None
           | Some (eval, _) \<Rightarrow>
               let minEval' = (if eval < minEval then eval else minEval);
                   bestMove' = (if eval < minEval then Some move else bestMove);
                   beta' = min beta eval
               in if beta' \<le> alpha then Some (minEval', bestMove')
                  else minLoop sch d b rest alpha beta' minEval' bestMove'))"
  by pat_completeness auto
termination
  by (relation "measures
        [\<lambda>x. case x of Inl (sch, d, r) \<Rightarrow> d
                | Inr (Inl (sch, d, r)) \<Rightarrow> d
                | Inr (Inr (sch, d, r)) \<Rightarrow> d,
         \<lambda>x. case x of Inl r \<Rightarrow> 0
                | Inr (Inl (sch, d, b, ms, r)) \<Rightarrow> Suc (length ms)
                | Inr (Inr (sch, d, b, ms, r)) \<Rightarrow> Suc (length ms)]") auto

definition GetAIMove :: "schedule \<Rightarrow> Board \<Rightarrow> Move option option" where
  "GetAIMove sch b =
     (case Minimax sch 3 (-999999) 999999 (CurrentTurn b = First) b of
        None \<Rightarrow> None
      | Some (_, move) \<Rightarrow> Some move)"

subsection \<open>The unpruned minimax of the specification\<close>

text \<open>
  The full traversal of the same tree: same leaves (depth 0, game over, no move), same
  move generator and executor under the same schedule, same evaluator; an inner node has
  the greatest of its children's values when maximizing and the least otherwise.
  \<open>childValues\<close> lists the values of all the children.
\<close>

function fullMinimax :: "schedule \<Rightarrow> nat \<Rightarrow> bool \<Rightarrow> Board \<Rightarrow> int option"
  and childValues :: "schedule \<Rightarrow> nat \<Rightarrow> bool \<Rightarrow> Board \<Rightarrow> Move list \<Rightarrow> int list option"
  where
  "fullMinimax sch 0 maximizing b = Some (Evaluate b)"
| "fullMinimax sch (Suc d) maximizing b =
     (if fst (IsGameOver b) then Some (Evaluate b)
      else case GetAllLegalMoves (sch []) b of
             None \<Rightarrow> None
           | Some moves \<Rightarrow>
               if moves = [] then Some (Evaluate b)
               else (case childValues sch d maximizing b moves of
                       None \<Rightarrow> None
                     | Some vs \<Rightarrow> Some (if maximizing then Max (set vs) else Min (set vs))))"
| "childValues sch d maximizing b [] = Some []"
| "childValues sch d maximizing b (move # rest) =
     (case MakeMove b move of
        None \<Rightarrow> None
      | Some newBoard \<Rightarrow>
          (case fullMinimax (\<lambda>p. sch (move # p)) d (\<not> maximizing) newBoard of
             None \<Rightarrow> None
           | Some v \<Rightarrow>
               (case childValues sch d maximizing b rest of
                  None \<Rightarrow> None
                | Some vs \<Rightarrow> Some (v # vs))))"
  by pat_completeness auto
termination
  by (relation "measures
        [\<lambda>x. case x of Inl (sch, d, r) \<Rightarrow> d | Inr (sch, d, r) \<Rightarrow> d,
         \<lambda>x. case x of Inl r \<Rightarrow> 0 | Inr (sch, d, mx, b, ms) \<Rightarrow> Suc (length ms)]") auto

subsection \<open>The candidates a loop examines\<close>

text \<open>
  The candidates that the loop of \<^verbatim>\<open>Minimax\<close> evaluates, in order, each with the score
  its child returned: the loop body once more, keeping the pairs \<open>(move, eval)\<close> and
  nothing else. \<open>windowClosed\<close> is the test \<^verbatim>\<open>beta <= alpha\<close> after the candidates with
  scores \<open>es\<close> have been examined.
\<close>

fun examined :: "schedule \<Rightarrow> nat \<Rightarrow> bool \<Rightarrow> Board \<Rightarrow> Move list \<Rightarrow> int \<Rightarrow> int \<Rightarrow> (Move \<times> int) list" where
  "examined sch d maximizing b [] alpha beta = []"
| "examined sch d maximizing b (move # rest) alpha beta =
     (case MakeMove b move of
        None \<Rightarrow> []
      | Some newBoard \<Rightarrow>
          (case Minimax (\<lambda>p. sch (move # p)) d alpha beta (\<not> maximizing) newBoard of
             None \<Rightarrow> []
           | Some (eval, _) \<Rightarrow>
               (move, eval) #
               (if maximizing
                then (if beta \<le> max alpha eval then []
                      else examined sch d maximizing b rest (max alpha eval) beta)
                else (if min beta eval \<le> alpha then []
                      else examined sch d maximizing b rest alpha (min beta eval)))))"

definition windowClosed :: "bool \<Rightarrow> int \<Rightarrow> int \<Rightarrow> int list \<Rightarrow> bool" where
  "windowClosed maximizing alpha beta es =
     (if maximizing then beta \<le> fold max es alpha else fold min es beta \<le> alpha)"

definition better :: "bool \<Rightarrow> int \<Rightarrow> int \<Rightarrow> bool" where
  "better maximizing e v = (if maximizing then e > v else e < v)"

subsection \<open>What a window search may return\<close>

text \<open>
  The relation between the score \<open>r\<close> that a search with window \<open>(alpha, beta)\<close> returns and
  the full minimax value \<open>v\<close> of the node: at or below \<open>alpha\<close> the score is an upper bound
  of the value, at or above \<open>beta\<close> a lower bound, and strictly inside the window it is
  the value.
\<close>

definition windowScore :: "int \<Rightarrow> int \<Rightarrow> int \<Rightarrow> int \<Rightarrow> bool" where
  "windowScore alpha beta r v \<longleftrightarrow>
     (r \<le> alpha \<longrightarrow> v \<le> r) \<and> (beta \<le> r \<longrightarrow> r \<le> v) \<and> (alpha < r \<and> r < beta \<longrightarrow> v = r)"

text \<open>The search is sound at depth \<open>d\<close> for the positions with at most 99 pieces.\<close>

definition soundAt :: "nat \<Rightarrow> bool" where
  "soundAt d \<longleftrightarrow>
     (\<forall>sch alpha beta maximizing b. pieceCount b \<le> 99 \<longrightarrow> alpha < beta \<longrightarrow>
        (\<exists>r mv v. Minimax sch d alpha beta maximizing b = Some (r, mv)
           \<and> fullMinimax sch d maximizing b = Some v
           \<and> - 999999 \<le> v \<and> v \<le> 999999 \<and> windowScore alpha beta r v))"

text \<open>The position of the counterexample to C1: the board is full of First's Golds but for
  the corner \<open>(0, 0)\<close> and the two Kings, and First holds 125 Kings.\<close>

definition crowded :: Board where
  "crowded =
     \<lparr>Cells = Arr5
        (Arr5 (Pc Empty NoneP) (Pc Gold First) (Pc Gold First) (Pc Gold First) (Pc Gold First))
        (Arr5 (Pc Gold First) (Pc Gold First) (Pc Gold First) (Pc Gold First) (Pc Gold First))
        (Arr5 (Pc Gold First) (Pc Gold First) (Pc Gold First) (Pc Gold First) (Pc Gold First))
        (Arr5 (Pc Gold First) (Pc Gold First) (Pc Gold First) (Pc Gold First) (Pc Gold First))
        (Arr5 (Pc King First) (Pc Gold First) (Pc Gold First) (Pc Gold First) (Pc King Second)),
      FirstHand = replicate 125 King, SecondHand = [], CurrentTurn = First\<rparr>"

text \<open>The 14 moves of First in the initial position, in the order of \<^verbatim>\<open>GetAllLegalMoves\<close>.\<close>

definition openingMoves :: "Move list" where
  "openingMoves =
     [Mv 3 0 2 0 False Empty False, Mv 4 0 3 1 False Empty False,
      Mv 4 1 3 1 False Empty False, Mv 4 1 3 2 False Empty False,
      Mv 4 2 3 1 False Empty False, Mv 4 2 3 2 False Empty False,
      Mv 4 2 3 3 False Empty False, Mv 4 3 3 2 False Empty False,
      Mv 4 3 2 1 False Empty False, Mv 4 3 1 0 False Empty False,
      Mv 4 3 3 4 False Empty False, Mv 4 4 3 4 False Empty False,
      Mv 4 4 2 4 False Empty False, Mv 4 4 1 4 False Empty False]"

subsection \<open>The destinations of the promotable kinds, as the specification words them\<close>

text \<open>
  Section 4.1 of the specification: a Silver steps once in the three forward directions
  or the two rear diagonals, a Pawn one step straight forward, a Bishop slides on the four
  diagonals and a Rook on the four orthogonals, a slide stopping at the first occupied
  cell; every destination is on the board and not held by a piece of the same owner.
  Forward is towards row 0 for First and towards row 4 for Second. \<open>reaches\<close> says that
  the piece on \<open>(row, col)\<close> has the destination \<open>(nr, nc)\<close>; it is false for the kinds that
  do not promote.
\<close>

definition forward :: "Player \<Rightarrow> int" where
  "forward p = (if p = First then - 1 else 1)"

definition silverStep :: "Player \<Rightarrow> int \<Rightarrow> int \<Rightarrow> bool" where
  "silverStep p dr dc \<longleftrightarrow>
     (dr = forward p \<and> (dc = - 1 \<or> dc = 0 \<or> dc = 1)) \<or> (dr = - forward p \<and> (dc = - 1 \<or> dc = 1))"

definition clearLine :: "Board \<Rightarrow> int \<Rightarrow> int \<Rightarrow> int \<Rightarrow> int \<Rightarrow> int \<Rightarrow> bool" where
  "clearLine b row col dr dc i \<longleftrightarrow>
     (\<forall>j\<in>{1..<i}. Owner (cell b (row + dr * j) (col + dc * j)) = NoneP)"

definition slidesTo :: "Board \<Rightarrow> int \<Rightarrow> int \<Rightarrow> (int \<times> int) set \<Rightarrow> int \<Rightarrow> int \<Rightarrow> bool" where
  "slidesTo b row col dirs nr nc \<longleftrightarrow>
     (\<exists>(dr, dc)\<in>dirs. \<exists>i\<in>{1..4}. nr = row + dr * i \<and> nc = col + dc * i
        \<and> clearLine b row col dr dc i)"

definition reaches :: "Board \<Rightarrow> int \<Rightarrow> int \<Rightarrow> int \<Rightarrow> int \<Rightarrow> bool" where
  "reaches b row col nr nc \<longleftrightarrow>
     isInBoard nr nc \<and> Owner (cell b nr nc) \<noteq> Owner (cell b row col)
     \<and> (case Type (cell b row col) of
           Silver \<Rightarrow> silverStep (Owner (cell b row col)) (nr - row) (nc - col)
         | Pawn \<Rightarrow> nr = row + forward (Owner (cell b row col)) \<and> nc = col
         | Bishop \<Rightarrow> slidesTo b row col {(- 1, - 1), (- 1, 1), (1, - 1), (1, 1)} nr nc
         | Rook \<Rightarrow> slidesTo b row col {(- 1, 0), (1, 0), (0, - 1), (0, 1)} nr nc
         | _ \<Rightarrow> False)"

text \<open>The initial position with a Silver of First put on \<open>(1, 1)\<close>, and with a Rook of
  First put on \<open>(2, 0)\<close>, two rows below the Rook of Second.\<close>

definition silverAtGate :: Board where
  "silverAtGate = setCell NewBoard 1 1 (Pc Silver First)"

definition rookOnFile :: Board where
  "rookOnFile = setCell NewBoard 2 0 (Pc Rook First)"

subsection \<open>Playing a line of legal moves\<close>

text \<open>
  \<open>playLegal b ms\<close> plays the moves \<open>ms\<close> from \<open>b\<close>, each one checked to be among the moves
  that \<^verbatim>\<open>GetAllLegalMoves\<close> returns for the position it is played in; \<open>None\<close> when one is
  not. The set of legal moves does not depend on the iteration order, so one order is
  enough for the test.
\<close>

definition legalNow :: "Board \<Rightarrow> Move \<Rightarrow> bool" where
  "legalNow b m =
     (case GetAllLegalMoves (\<lambda>k. 0) b of None \<Rightarrow> False | Some ms \<Rightarrow> m \<in> set ms)"

fun playLegal :: "Board \<Rightarrow> Move list \<Rightarrow> Board option" where
  "playLegal b [] = Some b"
| "playLegal b (m # ms) =
     (if legalNow b m then (case MakeMove b m of None \<Rightarrow> None | Some b' \<Rightarrow> playLegal b' ms)
      else None)"

text \<open>
  Six plies from the initial position: First's Rook takes the Pawn on \<open>(1, 4)\<close>, Second's
  Silver steps to \<open>(1, 2)\<close>, the Rook takes it, Second's Bishop takes the Rook, First's Pawn
  advances to \<open>(2, 0)\<close> and Second's Rook takes it, giving check on the open file. First is
  to move and holds a Pawn and a Silver; Second holds a Rook and a Pawn.
\<close>

definition rookLine :: "Move list" where
  "rookLine = [Mv 4 4 1 4 False Empty False, Mv 0 2 1 2 False Empty False,
               Mv 1 4 1 2 False Empty False, Mv 0 1 1 2 False Empty False,
               Mv 3 0 2 0 False Empty False, Mv 0 0 2 0 False Empty False]"

definition rookCheck :: Board where
  "rookCheck =
     \<lparr>Cells = Arr5
        (Arr5 (Pc Empty NoneP) (Pc Empty NoneP) (Pc Empty NoneP) (Pc Gold Second) (Pc King Second))
        (Arr5 (Pc Empty NoneP) (Pc Empty NoneP) (Pc Bishop Second) (Pc Empty NoneP) (Pc Empty NoneP))
        (Arr5 (Pc Rook Second) (Pc Empty NoneP) (Pc Empty NoneP) (Pc Empty NoneP) (Pc Empty NoneP))
        emptyRow
        (Arr5 (Pc King First) (Pc Gold First) (Pc Silver First) (Pc Bishop First) (Pc Empty NoneP)),
      FirstHand = [Pawn, Silver], SecondHand = [Rook, Pawn], CurrentTurn = First\<rparr>"

text \<open>The iteration order that visits the kind \<open>x\<close> first.\<close>

definition lowFirst :: "PieceType \<Rightarrow> mapOrder" where
  "lowFirst x k = (if k = x then 0 else 1)"

section \<open>Basic facts about the board\<close>


lemma in_idx5: "i \<in> set idx5 \<longleftrightarrow> 0 \<le> i \<and> i < 5"
  by (auto simp: idx5_def)

lemma idx_cases: "0 \<le> i \<Longrightarrow> i < 5 \<Longrightarrow> i = 0 \<or> i = 1 \<or> i = 2 \<or> i = 3 \<or> i = (4::int)"
  by arith

lemma set_allCells: "(r, c) \<in> set allCells \<longleftrightarrow> isInBoard r c"
  by (auto simp: allCells_def in_idx5 isInBoard_def)

lemma distinct_allCells: "distinct allCells"
  by (simp add: allCells_def idx5_def)

lemma get5_set5:
  "0 \<le> i \<Longrightarrow> i < 5 \<Longrightarrow> 0 \<le> j \<Longrightarrow> j < 5 \<Longrightarrow> get5 (set5 a i v) j = (if j = i then v else get5 a j)"
  by (cases a) (use idx_cases[of i] idx_cases[of j] in auto)

lemma cell_setCell:
  "isInBoard r c \<Longrightarrow> isInBoard r' c' \<Longrightarrow>
   cell (setCell b r c p) r' c' = (if r' = r \<and> c' = c then p else cell b r' c')"
  by (simp add: cell_def setCell_def isInBoard_def get5_set5)

lemma setCell_fields [simp]:
  "FirstHand (setCell b r c p) = FirstHand b"
  "SecondHand (setCell b r c p) = SecondHand b"
  "CurrentTurn (setCell b r c p) = CurrentTurn b"
  by (simp_all add: setCell_def)

lemma cell_hand_upd [simp]:
  "cell (b\<lparr>FirstHand := h\<rparr>) r c = cell b r c"
  "cell (b\<lparr>SecondHand := h\<rparr>) r c = cell b r c"
  "cell (b\<lparr>CurrentTurn := t\<rparr>) r c = cell b r c"
  by (simp_all add: cell_def)

lemma flipTurn_fields [simp]:
  "FirstHand (flipTurn b) = FirstHand b"
  "SecondHand (flipTurn b) = SecondHand b"
  "cell (flipTurn b) r c = cell b r c"
  "Cells (flipTurn b) = Cells b"
  by (simp_all add: flipTurn_def cell_def)

lemma CurrentTurn_flipTurn: "CurrentTurn (flipTurn b) = (if CurrentTurn b = First then Second else First)"
  by (simp add: flipTurn_def)

lemma hasKing_kingsOf: "hasKing b p \<longleftrightarrow> kingsOf b p \<noteq> 0"
  by (auto simp: hasKing_def kingsOf_def list_ex_iff filter_empty_conv)

lemma IsGameOver_by_count:
  "IsGameOver b = (if kingsOf b First = 0 then (True, Second)
      else if kingsOf b Second = 0 then (True, First) else (False, NoneP))"
  by (simp add: IsGameOver_def hasKing_kingsOf)

text \<open>
  C3 (amended). On every board with at most one King per player, \<^verbatim>\<open>IsGameOver\<close> returns
  \<open>(true, w)\<close> exactly when either one King is on the board and \<open>w\<close> is its owner, or no
  King is on the board and \<open>w\<close> is Second; when both Kings are present it returns
  \<open>(false, None)\<close>; the hands and the side to move (hence the legal moves of the side to
  move) have no influence on the result. The claim as written, for every board, fails on
  a board without Kings (\<open>IsGameOver_no_king_counterexample\<close>).
\<close>

theorem IsGameOver_one_king:
  assumes "kingsOf b First \<le> 1" and "kingsOf b Second \<le> 1"
  shows "(IsGameOver b = (True, w) \<longleftrightarrow>
           (kingsOf b First + kingsOf b Second = 1 \<and> w \<noteq> NoneP \<and> kingsOf b w = 1)
           \<or> (kingsOf b First + kingsOf b Second = 0 \<and> w = Second))
       \<and> (kingsOf b First = 1 \<and> kingsOf b Second = 1 \<longrightarrow> IsGameOver b = (False, NoneP))
       \<and> IsGameOver (b\<lparr>FirstHand := h1, SecondHand := h2, CurrentTurn := t\<rparr>) = IsGameOver b"
proof -
  have k: "kingsOf (b\<lparr>FirstHand := h1, SecondHand := h2, CurrentTurn := t\<rparr>) p = kingsOf b p" for p
    by (simp add: kingsOf_def cell_def)
  show ?thesis
    using assms unfolding IsGameOver_by_count k
    by (cases w) auto
qed

lemma canPromote_zone: "p \<noteq> NoneP \<Longrightarrow> canPromote p row = promotionZone p row"
  by (cases p) (auto simp: canPromote_def promotionZone_def)

lemma stepMoves_plain: "m \<in> set (stepMoves b row col dirs) \<Longrightarrow> \<not> Promote m"
  apply (simp add: stepMoves_def Let_def)
  apply (erule bexE)
  apply (simp split: if_splits)
  done

lemma silverMoves_variants:
  assumes "m \<in> set (silverMoves b piece row col dirs)"
  shows "(canPromote (Owner piece) (ToRow m) \<longrightarrow>
            m\<lparr>Promote := True\<rparr> \<in> set (silverMoves b piece row col dirs)
          \<and> m\<lparr>Promote := False\<rparr> \<in> set (silverMoves b piece row col dirs))
       \<and> (\<not> canPromote (Owner piece) (ToRow m) \<longrightarrow> \<not> Promote m)"
proof -
  from assms obtain d where d: "d \<in> set dirs"
    and v: "isValidMove b row col (row + fst d) (col + snd d)"
    and m: "m = Mv row col (row + fst d) (col + snd d) False Empty False
          \<or> (canPromote (Owner piece) (row + fst d)
              \<and> m = Mv row col (row + fst d) (col + snd d) False Empty True)"
    unfolding silverMoves_def Let_def
    by (simp split: if_splits) blast
  have plain: "Mv row col (row + fst d) (col + snd d) False Empty False
      \<in> set (silverMoves b piece row col dirs)"
    unfolding silverMoves_def Let_def using d v
    by (simp) (rule bexI[of _ d], simp_all)
  have prom: "canPromote (Owner piece) (row + fst d) \<Longrightarrow>
      Mv row col (row + fst d) (col + snd d) False Empty True
      \<in> set (silverMoves b piece row col dirs)"
    unfolding silverMoves_def Let_def using d v
    by (simp) (rule bexI[of _ d], simp_all)
  from m show ?thesis
  proof
    assume "m = Mv row col (row + fst d) (col + snd d) False Empty False"
    then show ?thesis using plain prom by simp
  next
    assume "canPromote (Owner piece) (row + fst d)
              \<and> m = Mv row col (row + fst d) (col + snd d) False Empty True"
    then show ?thesis using plain prom by simp
  qed
qed

lemma pawnMoves_unfold:
  "pawnMoves b piece row col =
      (if isValidMove b row col (row + (if Owner piece = Second then 1 else -1)) col then
        (if canPromote (Owner piece) (row + (if Owner piece = Second then 1 else -1))
         then [Mv row col (row + (if Owner piece = Second then 1 else -1)) col False Empty True] else [])
        @ [Mv row col (row + (if Owner piece = Second then 1 else -1)) col False Empty False]
      else [])"
  unfolding pawnMoves_def Let_def by simp

lemma pawnMoves_variants:
  assumes "m \<in> set (pawnMoves b piece row col)"
  shows "(canPromote (Owner piece) (ToRow m) \<longrightarrow>
            m\<lparr>Promote := True\<rparr> \<in> set (pawnMoves b piece row col)
          \<and> m\<lparr>Promote := False\<rparr> \<in> set (pawnMoves b piece row col))
       \<and> (\<not> canPromote (Owner piece) (ToRow m) \<longrightarrow> \<not> Promote m)"
proof -
  define nr where "nr = row + (if Owner piece = Second then 1 else -1)"
  have pm: "pawnMoves b piece row col =
      (if isValidMove b row col nr col then
        (if canPromote (Owner piece) nr then [Mv row col nr col False Empty True] else [])
        @ [Mv row col nr col False Empty False]
      else [])"
    unfolding pawnMoves_unfold nr_def ..
  from assms have v: "isValidMove b row col nr col"
    unfolding pm by (simp split: if_splits)
  from assms have m: "m = Mv row col nr col False Empty False
          \<or> (canPromote (Owner piece) nr \<and> m = Mv row col nr col False Empty True)"
    unfolding pm by (simp split: if_splits) blast
  from m show ?thesis
  proof
    assume "m = Mv row col nr col False Empty False"
    then show ?thesis unfolding pm using v by simp
  next
    assume "canPromote (Owner piece) nr \<and> m = Mv row col nr col False Empty True"
    then show ?thesis unfolding pm using v by simp
  qed
qed

lemma slide_variants:
  assumes "m \<in> set (slide b piece pk row col d is)"
  shows "(Type piece = pk \<and> canPromote (Owner piece) (ToRow m) \<longrightarrow>
            m\<lparr>Promote := True\<rparr> \<in> set (slide b piece pk row col d is)
          \<and> m\<lparr>Promote := False\<rparr> \<in> set (slide b piece pk row col d is))
       \<and> (\<not> (Type piece = pk \<and> canPromote (Owner piece) (ToRow m)) \<longrightarrow> \<not> Promote m)"
  using assms
proof (induction "is")
  case Nil
  then show ?case by simp
next
  case (Cons i "is")
  then show ?case
    by (auto simp: Let_def split: if_splits)
qed

lemma slideMoves_variants:
  assumes "m \<in> set (slideMoves b piece pk row col dirs)"
  shows "(Type piece = pk \<and> canPromote (Owner piece) (ToRow m) \<longrightarrow>
            m\<lparr>Promote := True\<rparr> \<in> set (slideMoves b piece pk row col dirs)
          \<and> m\<lparr>Promote := False\<rparr> \<in> set (slideMoves b piece pk row col dirs))
       \<and> (\<not> (Type piece = pk \<and> canPromote (Owner piece) (ToRow m)) \<longrightarrow> \<not> Promote m)"
proof -
  from assms obtain d where d: "d \<in> set dirs" "m \<in> set (slide b piece pk row col d [1, 2, 3, 4])"
    by (auto simp: slideMoves_def)
  from slide_variants[OF d(2)] d(1) show ?thesis
    by (auto simp: slideMoves_def)
qed

lemma GetPossibleMoves_SomeD:
  assumes "GetPossibleMoves b row col = Some ms" and "m \<in> set ms"
  shows "isInBoard row col" and "Owner (cell b row col) = CurrentTurn b"
    and "Owner (cell b row col) \<noteq> NoneP"
    and "ms = (case Type (cell b row col) of
            King \<Rightarrow> stepMoves b row col
                      [(-1, -1), (-1, 0), (-1, 1), (0, -1), (0, 1), (1, -1), (1, 0), (1, 1)]
          | Gold \<Rightarrow> stepMoves b row col (getGoldMoves (Owner (cell b row col)))
          | PromotedSilver \<Rightarrow> stepMoves b row col (getGoldMoves (Owner (cell b row col)))
          | PromotedPawn \<Rightarrow> stepMoves b row col (getGoldMoves (Owner (cell b row col)))
          | Silver \<Rightarrow> silverMoves b (cell b row col) row col (getSilverMoves (Owner (cell b row col)))
          | Bishop \<Rightarrow> slideMoves b (cell b row col) Bishop row col diagDirs
          | PromotedBishop \<Rightarrow>
              slideMoves b (cell b row col) Bishop row col diagDirs
              @ stepMoves b row col [(-1, 0), (0, -1), (0, 1), (1, 0)]
          | Rook \<Rightarrow> slideMoves b (cell b row col) Rook row col [(-1, 0), (1, 0), (0, -1), (0, 1)]
          | PromotedRook \<Rightarrow>
              slideMoves b (cell b row col) Rook row col [(-1, 0), (1, 0), (0, -1), (0, 1)]
              @ stepMoves b row col diagDirs
          | Pawn \<Rightarrow> pawnMoves b (cell b row col) row col
          | Empty \<Rightarrow> [])"
proof -
  show "isInBoard row col"
    using assms(1) by (simp add: GetPossibleMoves_def split: if_splits)
  then have *: "(if Owner (cell b row col) = NoneP \<or> Owner (cell b row col) \<noteq> CurrentTurn b then Some []
      else Some (case Type (cell b row col) of
            King \<Rightarrow> stepMoves b row col
                      [(-1, -1), (-1, 0), (-1, 1), (0, -1), (0, 1), (1, -1), (1, 0), (1, 1)]
          | Gold \<Rightarrow> stepMoves b row col (getGoldMoves (Owner (cell b row col)))
          | PromotedSilver \<Rightarrow> stepMoves b row col (getGoldMoves (Owner (cell b row col)))
          | PromotedPawn \<Rightarrow> stepMoves b row col (getGoldMoves (Owner (cell b row col)))
          | Silver \<Rightarrow> silverMoves b (cell b row col) row col (getSilverMoves (Owner (cell b row col)))
          | Bishop \<Rightarrow> slideMoves b (cell b row col) Bishop row col diagDirs
          | PromotedBishop \<Rightarrow>
              slideMoves b (cell b row col) Bishop row col diagDirs
              @ stepMoves b row col [(-1, 0), (0, -1), (0, 1), (1, 0)]
          | Rook \<Rightarrow> slideMoves b (cell b row col) Rook row col [(-1, 0), (1, 0), (0, -1), (0, 1)]
          | PromotedRook \<Rightarrow>
              slideMoves b (cell b row col) Rook row col [(-1, 0), (1, 0), (0, -1), (0, 1)]
              @ stepMoves b row col diagDirs
          | Pawn \<Rightarrow> pawnMoves b (cell b row col) row col
          | Empty \<Rightarrow> [])) = Some ms"
    using assms(1) unfolding GetPossibleMoves_def Let_def by simp
  have own: "\<not> (Owner (cell b row col) = NoneP \<or> Owner (cell b row col) \<noteq> CurrentTurn b)"
  proof
    assume "Owner (cell b row col) = NoneP \<or> Owner (cell b row col) \<noteq> CurrentTurn b"
    with * have "ms = []" by simp
    with assms(2) show False by simp
  qed
  then show "Owner (cell b row col) = CurrentTurn b" "Owner (cell b row col) \<noteq> NoneP"
    by blast+
  from * own show "ms = (case Type (cell b row col) of
            King \<Rightarrow> stepMoves b row col
                      [(-1, -1), (-1, 0), (-1, 1), (0, -1), (0, 1), (1, -1), (1, 0), (1, 1)]
          | Gold \<Rightarrow> stepMoves b row col (getGoldMoves (Owner (cell b row col)))
          | PromotedSilver \<Rightarrow> stepMoves b row col (getGoldMoves (Owner (cell b row col)))
          | PromotedPawn \<Rightarrow> stepMoves b row col (getGoldMoves (Owner (cell b row col)))
          | Silver \<Rightarrow> silverMoves b (cell b row col) row col (getSilverMoves (Owner (cell b row col)))
          | Bishop \<Rightarrow> slideMoves b (cell b row col) Bishop row col diagDirs
          | PromotedBishop \<Rightarrow>
              slideMoves b (cell b row col) Bishop row col diagDirs
              @ stepMoves b row col [(-1, 0), (0, -1), (0, 1), (1, 0)]
          | Rook \<Rightarrow> slideMoves b (cell b row col) Rook row col [(-1, 0), (1, 0), (0, -1), (0, 1)]
          | PromotedRook \<Rightarrow>
              slideMoves b (cell b row col) Rook row col [(-1, 0), (1, 0), (0, -1), (0, 1)]
              @ stepMoves b row col diagDirs
          | Pawn \<Rightarrow> pawnMoves b (cell b row col) row col
          | Empty \<Rightarrow> [])"
    by (simp del: set_ConsD)
qed

text \<open>The variants among the generated moves: a generated move of a Silver, Bishop, Rook or
  Pawn into the zone comes with both variants, outside the zone it does not promote, and
  no move of another kind promotes.\<close>

lemma promotion_variants_closure:
  assumes "GetPossibleMoves b row col = Some ms" and "m \<in> set ms"
  shows "(Type (cell b row col) \<in> {Silver, Bishop, Rook, Pawn}
            \<and> promotionZone (Owner (cell b row col)) (ToRow m) \<longrightarrow>
              m\<lparr>Promote := True\<rparr> \<in> set ms \<and> m\<lparr>Promote := False\<rparr> \<in> set ms)
       \<and> (Type (cell b row col) \<in> {Silver, Bishop, Rook, Pawn}
            \<and> \<not> promotionZone (Owner (cell b row col)) (ToRow m) \<longrightarrow> \<not> Promote m)
       \<and> (Type (cell b row col) \<notin> {Silver, Bishop, Rook, Pawn} \<longrightarrow> \<not> Promote m)"
proof -
  let ?p = "cell b row col"
  note d = GetPossibleMoves_SomeD[OF assms]
  note z = canPromote_zone[OF d(3)]
  show ?thesis
  proof (cases "Type ?p")
    case Silver
    with d(4) have ms: "ms = silverMoves b ?p row col (getSilverMoves (Owner ?p))" by simp
    show ?thesis
      using silverMoves_variants[of m b ?p row col "getSilverMoves (Owner ?p)"] assms(2)
      unfolding ms[symmetric] z by (simp add: Silver)
  next
    case Bishop
    with d(4) have ms: "ms = slideMoves b ?p Bishop row col diagDirs" by simp
    show ?thesis
      using slideMoves_variants[of m b ?p Bishop row col diagDirs] assms(2)
      unfolding ms[symmetric] z by (simp add: Bishop)
  next
    case Rook
    with d(4) have ms: "ms = slideMoves b ?p Rook row col [(-1, 0), (1, 0), (0, -1), (0, 1)]" by simp
    show ?thesis
      using slideMoves_variants[of m b ?p Rook row col "[(-1, 0), (1, 0), (0, -1), (0, 1)]"] assms(2)
      unfolding ms[symmetric] z by (simp add: Rook)
  next
    case Pawn
    with d(4) have ms: "ms = pawnMoves b ?p row col" by simp
    show ?thesis
      using pawnMoves_variants[of m b ?p row col] assms(2)
      unfolding ms[symmetric] z by (simp add: Pawn)
  next
    case PromotedBishop
    with d(4) have ms: "ms = slideMoves b ?p Bishop row col diagDirs
        @ stepMoves b row col [(-1, 0), (0, -1), (0, 1), (1, 0)]" by simp
    have "\<not> Promote m"
      using slideMoves_variants[of m b ?p Bishop row col diagDirs] assms(2) stepMoves_plain[of m]
      unfolding ms by (auto simp: PromotedBishop)
    then show ?thesis by (simp add: PromotedBishop)
  next
    case PromotedRook
    with d(4) have ms: "ms = slideMoves b ?p Rook row col [(-1, 0), (1, 0), (0, -1), (0, 1)]
        @ stepMoves b row col diagDirs" by simp
    have "\<not> Promote m"
      using slideMoves_variants[of m b ?p Rook row col "[(-1, 0), (1, 0), (0, -1), (0, 1)]"] assms(2)
        stepMoves_plain[of m]
      unfolding ms by (auto simp: PromotedRook)
    then show ?thesis by (simp add: PromotedRook)
  next
    case King
    with d(4) assms(2) stepMoves_plain[of m] show ?thesis by auto
  next
    case Gold
    with d(4) assms(2) stepMoves_plain[of m] show ?thesis by auto
  next
    case PromotedSilver
    with d(4) assms(2) stepMoves_plain[of m] show ?thesis by auto
  next
    case PromotedPawn
    with d(4) assms(2) stepMoves_plain[of m] show ?thesis by auto
  next
    case Empty
    with d(4) assms(2) show ?thesis by auto
  qed
qed

lemma cells_simps:
  "cell \<lparr>Cells = Arr5 r0 r1 r2 r3 r4, FirstHand = fh, SecondHand = sh, CurrentTurn = t\<rparr> 0 c = get5 r0 c"
  "cell \<lparr>Cells = Arr5 r0 r1 r2 r3 r4, FirstHand = fh, SecondHand = sh, CurrentTurn = t\<rparr> 1 c = get5 r1 c"
  "cell \<lparr>Cells = Arr5 r0 r1 r2 r3 r4, FirstHand = fh, SecondHand = sh, CurrentTurn = t\<rparr> 2 c = get5 r2 c"
  "cell \<lparr>Cells = Arr5 r0 r1 r2 r3 r4, FirstHand = fh, SecondHand = sh, CurrentTurn = t\<rparr> 3 c = get5 r3 c"
  "cell \<lparr>Cells = Arr5 r0 r1 r2 r3 r4, FirstHand = fh, SecondHand = sh, CurrentTurn = t\<rparr> 4 c = get5 r4 c"
  by (simp_all add: cell_def)

text \<open>Inputs for C3: the board without Kings, where the game is reported over with
  winner Second although no King is present; and the initial position.\<close>

theorem IsGameOver_no_king_counterexample:
  "IsGameOver emptyBoard = (True, Second)
   \<and> kingsOf emptyBoard First + kingsOf emptyBoard Second \<noteq> 1"
  by (simp add: IsGameOver_def hasKing_def kingsOf_def emptyBoard_def emptyRow_def allCells_def
      idx5_def cells_simps)

theorem IsGameOver_one_king_witness:
  "kingsOf NewBoard First \<le> 1 \<and> kingsOf NewBoard Second \<le> 1
   \<and> kingsOf NewBoard First = 1 \<and> kingsOf NewBoard Second = 1
   \<and> IsGameOver NewBoard = (False, NoneP)"
proof -
  have k: "kingsOf NewBoard First = 1" "kingsOf NewBoard Second = 1"
    by (simp_all add: kingsOf_def NewBoard_def emptyRow_def allCells_def idx5_def cells_simps)
  from IsGameOver_one_king[of NewBoard] k show ?thesis by simp
qed

section \<open>Drops\<close>

lemma rangeKeys_set [simp]: "set (rangeKeys rk hand) = set hand"
  by (simp add: rangeKeys_def)

lemma rangeKeys_distinct [simp]: "distinct (rangeKeys rk hand)"
  by (simp add: rangeKeys_def)



text \<open>Whether a drop of kind \<open>k\<close> onto \<open>(r, c)\<close> passes the two Pawn tests of the loop body.\<close>

lemma dropsOf_mem:
  "m \<in> set (dropsOf b k) \<longleftrightarrow>
     (\<exists>r c. m = Mv (-1) (-1) r c True k False \<and> isInBoard r c \<and> Owner (cell b r c) = NoneP
        \<and> \<not> (k = Pawn \<and> hasPawnInColumn b c (CurrentTurn b))
        \<and> \<not> (k = Pawn \<and> ((CurrentTurn b = First \<and> r = 0) \<or> (CurrentTurn b = Second \<and> r = 4))))"
proof
  assume "m \<in> set (dropsOf b k)"
  then obtain r c where rc: "r \<in> set idx5" "c \<in> set idx5"
    and m: "m \<in> set (if Owner (cell b r c) = NoneP then
         (if k = Pawn \<and> hasPawnInColumn b c (CurrentTurn b) then []
          else if k = Pawn \<and> ((CurrentTurn b = First \<and> r = 0) \<or> (CurrentTurn b = Second \<and> r = 4))
          then []
          else [Mv (-1) (-1) r c True k False])
       else [])"
    unfolding dropsOf_def by (simp only: set_concat set_map UN_iff bex_simps image_iff) blast
  from m have "m = Mv (-1) (-1) r c True k False \<and> Owner (cell b r c) = NoneP
        \<and> \<not> (k = Pawn \<and> hasPawnInColumn b c (CurrentTurn b))
        \<and> \<not> (k = Pawn \<and> ((CurrentTurn b = First \<and> r = 0) \<or> (CurrentTurn b = Second \<and> r = 4)))"
    by (simp split: if_splits)
  moreover from rc have "isInBoard r c"
    by (simp add: in_idx5 isInBoard_def)
  ultimately show "\<exists>r c. m = Mv (-1) (-1) r c True k False \<and> isInBoard r c \<and> Owner (cell b r c) = NoneP
        \<and> \<not> (k = Pawn \<and> hasPawnInColumn b c (CurrentTurn b))
        \<and> \<not> (k = Pawn \<and> ((CurrentTurn b = First \<and> r = 0) \<or> (CurrentTurn b = Second \<and> r = 4)))"
    by blast
next
  assume "\<exists>r c. m = Mv (-1) (-1) r c True k False \<and> isInBoard r c \<and> Owner (cell b r c) = NoneP
        \<and> \<not> (k = Pawn \<and> hasPawnInColumn b c (CurrentTurn b))
        \<and> \<not> (k = Pawn \<and> ((CurrentTurn b = First \<and> r = 0) \<or> (CurrentTurn b = Second \<and> r = 4)))"
  then obtain r c where m: "m = Mv (-1) (-1) r c True k False" and rc: "isInBoard r c"
    and e: "Owner (cell b r c) = NoneP"
    and p1: "\<not> (k = Pawn \<and> hasPawnInColumn b c (CurrentTurn b))"
    and p2: "\<not> (k = Pawn \<and> ((CurrentTurn b = First \<and> r = 0) \<or> (CurrentTurn b = Second \<and> r = 4)))"
    by blast
  from rc have r: "r \<in> set idx5" and c: "c \<in> set idx5"
    by (simp_all add: in_idx5 isInBoard_def)
  have "m \<in> set (if Owner (cell b r c) = NoneP then
         (if k = Pawn \<and> hasPawnInColumn b c (CurrentTurn b) then []
          else if k = Pawn \<and> ((CurrentTurn b = First \<and> r = 0) \<or> (CurrentTurn b = Second \<and> r = 4))
          then []
          else [Mv (-1) (-1) r c True k False])
       else [])"
    using m e p1 p2 by simp
  with r c show "m \<in> set (dropsOf b k)"
    unfolding dropsOf_def by (simp only: set_concat set_map UN_iff bex_simps image_iff) blast
qed



lemma GetDropMoves_mem:
  "m \<in> set (GetDropMoves rk b) \<longleftrightarrow> (\<exists>k\<in>set (moverHand b). m \<in> set (dropsOf b k))"
  by (simp add: GetDropMoves_def)



section \<open>Captures\<close>

text \<open>
  C6. A board move whose destination holds a piece of the other side makes \<^verbatim>\<open>MakeMove\<close>
  append exactly one kind to the mover's hand, the base kind of the captured piece
  (PromotedSilver as Silver, PromotedBishop as Bishop, PromotedRook as Rook, PromotedPawn
  as Pawn, any other kind unchanged), and leaves the other hand as it was.
\<close>

theorem MakeMove_capture_base_kind:
  assumes "\<not> IsDrop m"
    and "isInBoard (FromRow m) (FromCol m)" and "isInBoard (ToRow m) (ToCol m)"
    and "Owner (cell b (ToRow m) (ToCol m)) \<noteq> NoneP"
    and "Owner (cell b (ToRow m) (ToCol m)) \<noteq> CurrentTurn b"
  shows "\<exists>b'. MakeMove b m = Some b'
     \<and> (CurrentTurn b = First \<longrightarrow>
          FirstHand b' = FirstHand b @ [baseKind (Type (cell b (ToRow m) (ToCol m)))]
          \<and> SecondHand b' = SecondHand b)
     \<and> (CurrentTurn b = Second \<longrightarrow>
          SecondHand b' = SecondHand b @ [baseKind (Type (cell b (ToRow m) (ToCol m)))]
          \<and> FirstHand b' = FirstHand b)"
proof -
  have base: "(case k of PromotedSilver \<Rightarrow> Silver | PromotedBishop \<Rightarrow> Bishop
      | PromotedRook \<Rightarrow> Rook | PromotedPawn \<Rightarrow> Pawn | t \<Rightarrow> t) = baseKind k" for k
    by (cases k) simp_all
  show ?thesis
    using assms by (simp add: MakeMove_def Let_def base)
qed

text \<open>Input for C6: in \<open>pawnAtGate\<close> First's Pawn takes Second's Rook on \<open>(0, 0)\<close>.\<close>

theorem MakeMove_capture_base_kind_witness:
  "\<exists>b'. MakeMove pawnAtGate (Mv 1 0 0 0 False Empty True) = Some b'
     \<and> FirstHand b' = [Rook] \<and> SecondHand b' = []"
proof -
  have c: "cell pawnAtGate 0 0 = Pc Rook Second" "CurrentTurn pawnAtGate = First"
    "FirstHand pawnAtGate = []" "SecondHand pawnAtGate = []"
    by (simp_all add: pawnAtGate_def cell_setCell isInBoard_def NewBoard_def cells_simps)
  from MakeMove_capture_base_kind[of "Mv 1 0 0 0 False Empty True" pawnAtGate] c
  show ?thesis by (simp add: isInBoard_def)
qed

section \<open>The moves of GetAllLegalMoves\<close>

lemma isValidMove_D:
  "isValidMove b row col nr nc \<Longrightarrow>
     isInBoard nr nc \<and> Owner (cell b nr nc) \<noteq> Owner (cell b row col)"
  by (simp add: isValidMove_def split: if_splits)

lemma boardMoveOk_Mv:
  "isInBoard nr nc \<Longrightarrow> Owner (cell b nr nc) \<noteq> Owner (cell b row col) \<Longrightarrow>
     boardMoveOk b row col (Mv row col nr nc False Empty pr)"
  by (simp add: boardMoveOk_def)

lemma stepMoves_ok:
  assumes "m \<in> set (stepMoves b row col dirs)"
  shows "boardMoveOk b row col m"
proof -
  from assms obtain d where v: "isValidMove b row col (row + fst d) (col + snd d)"
    and m: "m = Mv row col (row + fst d) (col + snd d) False Empty False"
    unfolding stepMoves_def Let_def by (simp split: if_splits) blast+
  from isValidMove_D[OF v] show ?thesis
    unfolding m by (simp add: boardMoveOk_Mv)
qed

lemma silverMoves_ok:
  assumes "m \<in> set (silverMoves b piece row col dirs)"
  shows "boardMoveOk b row col m"
proof -
  from assms obtain d where v: "isValidMove b row col (row + fst d) (col + snd d)"
    and m: "m = Mv row col (row + fst d) (col + snd d) False Empty False
          \<or> m = Mv row col (row + fst d) (col + snd d) False Empty True"
    unfolding silverMoves_def Let_def by (simp split: if_splits) blast+
  from isValidMove_D[OF v] m show ?thesis
    using boardMoveOk_Mv[of "row + fst d" "col + snd d" b row col] by blast
qed

lemma pawnMoves_ok:
  assumes "m \<in> set (pawnMoves b piece row col)"
  shows "boardMoveOk b row col m"
proof -
  define nr where "nr = row + (if Owner piece = Second then 1 else -1)"
  have pm: "pawnMoves b piece row col =
      (if isValidMove b row col nr col then
        (if canPromote (Owner piece) nr then [Mv row col nr col False Empty True] else [])
        @ [Mv row col nr col False Empty False]
      else [])"
    unfolding pawnMoves_unfold nr_def ..
  from assms have v: "isValidMove b row col nr col"
    unfolding pm by (simp split: if_splits)
  from assms have m: "m = Mv row col nr col False Empty False \<or> m = Mv row col nr col False Empty True"
    unfolding pm by (simp split: if_splits) blast+
  from isValidMove_D[OF v] m show ?thesis
    using boardMoveOk_Mv[of nr col b row col] by blast
qed

lemma slide_ok:
  "m \<in> set (slide b (cell b row col) pk row col d is) \<Longrightarrow> boardMoveOk b row col m"
proof (induction "is")
  case Nil
  then show ?case by simp
next
  case (Cons i "is")
  let ?nr = "row + fst d * i" and ?nc = "col + snd d * i"
  from Cons.prems have inb: "isInBoard ?nr ?nc"
    and ow: "Owner (cell b ?nr ?nc) \<noteq> Owner (cell b row col)"
    by (simp_all add: Let_def split: if_splits)
  from Cons.prems inb ow have
    "m = Mv row col ?nr ?nc False Empty True \<or> m = Mv row col ?nr ?nc False Empty False
     \<or> m \<in> set (slide b (cell b row col) pk row col d is)"
    by (simp add: Let_def split: if_splits) blast+
  then show ?case
    using boardMoveOk_Mv[OF inb ow] Cons.IH by blast
qed

lemma slideMoves_ok:
  "m \<in> set (slideMoves b (cell b row col) pk row col dirs) \<Longrightarrow> boardMoveOk b row col m"
proof -
  assume "m \<in> set (slideMoves b (cell b row col) pk row col dirs)"
  then obtain d where "m \<in> set (slide b (cell b row col) pk row col d [1, 2, 3, 4])"
    unfolding slideMoves_def set_concat set_map by blast
  then show ?thesis by (rule slide_ok)
qed

lemma GetPossibleMoves_ok:
  assumes "GetPossibleMoves b row col = Some ms" and "m \<in> set ms"
  shows "boardMoveOk b row col m"
proof -
  note d = GetPossibleMoves_SomeD[OF assms]
  show ?thesis
  proof (cases "Type (cell b row col)")
    case Empty
    with d(4) assms(2) show ?thesis by simp
  next
    case PromotedBishop
    with d(4) assms(2) show ?thesis
      using stepMoves_ok slideMoves_ok by auto
  next
    case PromotedRook
    with d(4) assms(2) show ?thesis
      using stepMoves_ok slideMoves_ok by auto
  qed (use d(4) assms(2) stepMoves_ok silverMoves_ok slideMoves_ok pawnMoves_ok in simp_all)
qed

lemma GetPossibleMoves_total: "isInBoard r c \<Longrightarrow> \<exists>ms. GetPossibleMoves b r c = Some ms"
  by (simp add: GetPossibleMoves_def Let_def)

lemma boardMovesFrom_Some:
  assumes "\<And>r c. (r, c) \<in> set cs \<Longrightarrow> isInBoard r c"
  shows "\<exists>ms. boardMovesFrom b cs = Some ms
     \<and> (\<forall>m. m \<in> set ms \<longleftrightarrow>
          (\<exists>r c ms'. (r, c) \<in> set cs \<and> Owner (cell b r c) = CurrentTurn b
             \<and> GetPossibleMoves b r c = Some ms' \<and> m \<in> set ms'))"
  using assms
proof (induction cs)
  case Nil
  then show ?case by simp
next
  case (Cons x cs)
  obtain r c where x: "x = (r, c)" by (cases x)
  from Cons.prems have "\<And>r c. (r, c) \<in> set cs \<Longrightarrow> isInBoard r c" by simp
  from Cons.IH[OF this] obtain ms where ms: "boardMovesFrom b cs = Some ms"
    and mem: "\<And>m. m \<in> set ms \<longleftrightarrow>
          (\<exists>r c ms'. (r, c) \<in> set cs \<and> Owner (cell b r c) = CurrentTurn b
             \<and> GetPossibleMoves b r c = Some ms' \<and> m \<in> set ms')"
    by blast
  from Cons.prems x have "isInBoard r c" by simp
  then obtain ms0 where ms0: "GetPossibleMoves b r c = Some ms0"
    using GetPossibleMoves_total by blast
  show ?case
  proof (cases "Owner (cell b r c) = CurrentTurn b")
    case True
    then have "boardMovesFrom b (x # cs) = Some (ms0 @ ms)"
      by (simp add: x ms ms0)
    moreover have "m \<in> set (ms0 @ ms) \<longleftrightarrow>
          (\<exists>r' c' ms'. (r', c') \<in> set (x # cs) \<and> Owner (cell b r' c') = CurrentTurn b
             \<and> GetPossibleMoves b r' c' = Some ms' \<and> m \<in> set ms')" for m
      unfolding set_append Un_iff mem x using True ms0 by auto
    ultimately show ?thesis by blast
  next
    case False
    then have "boardMovesFrom b (x # cs) = Some ms"
      by (simp add: x ms)
    moreover have "m \<in> set ms \<longleftrightarrow>
          (\<exists>r' c' ms'. (r', c') \<in> set (x # cs) \<and> Owner (cell b r' c') = CurrentTurn b
             \<and> GetPossibleMoves b r' c' = Some ms' \<and> m \<in> set ms')" for m
      unfolding mem x using False by auto
    ultimately show ?thesis by blast
  qed
qed

text \<open>\<^verbatim>\<open>GetAllLegalMoves\<close> never panics, and its moves are the board moves of the mover's
  cells and the drops.\<close>

lemma GetAllLegalMoves_Some:
  "\<exists>ms. GetAllLegalMoves rk b = Some ms
     \<and> (\<forall>m. m \<in> set ms \<longleftrightarrow>
          (\<exists>r c ms'. isInBoard r c \<and> Owner (cell b r c) = CurrentTurn b
             \<and> GetPossibleMoves b r c = Some ms' \<and> m \<in> set ms')
          \<or> m \<in> set (GetDropMoves rk b))"
proof -
  have "\<And>r c. (r, c) \<in> set allCells \<Longrightarrow> isInBoard r c"
    by (simp add: set_allCells)
  from boardMovesFrom_Some[where cs = allCells and b = b, OF this] obtain ms where ms: "boardMovesFrom b allCells = Some ms"
    and mem: "\<And>m. m \<in> set ms \<longleftrightarrow>
          (\<exists>r c ms'. (r, c) \<in> set allCells \<and> Owner (cell b r c) = CurrentTurn b
             \<and> GetPossibleMoves b r c = Some ms' \<and> m \<in> set ms')"
    by blast
  have "GetAllLegalMoves rk b = Some (ms @ GetDropMoves rk b)"
    by (simp add: GetAllLegalMoves_def ms)
  moreover have "m \<in> set (ms @ GetDropMoves rk b) \<longleftrightarrow>
          (\<exists>r c ms'. isInBoard r c \<and> Owner (cell b r c) = CurrentTurn b
             \<and> GetPossibleMoves b r c = Some ms' \<and> m \<in> set ms')
          \<or> m \<in> set (GetDropMoves rk b)" for m
    unfolding set_append Un_iff mem set_allCells ..
  ultimately show ?thesis by blast
qed

lemma GetAllLegalMoves_mem:
  assumes "GetAllLegalMoves rk b = Some ms"
  shows "m \<in> set ms \<longleftrightarrow>
          (\<exists>r c ms'. isInBoard r c \<and> Owner (cell b r c) = CurrentTurn b
             \<and> GetPossibleMoves b r c = Some ms' \<and> m \<in> set ms')
          \<or> m \<in> set (GetDropMoves rk b)"
  using GetAllLegalMoves_Some[of rk b] assms by auto

lemma legal_move_shape:
  assumes "GetAllLegalMoves rk b = Some ms" and "m \<in> set ms"
  shows "legalShape b m"
proof -
  from assms consider
    (board) r c ms' where "isInBoard r c" "Owner (cell b r c) = CurrentTurn b"
      "GetPossibleMoves b r c = Some ms'" "m \<in> set ms'"
    | (drop) "m \<in> set (GetDropMoves rk b)"
    using GetAllLegalMoves_mem[OF assms(1), of m] by blast
  then show ?thesis
  proof cases
    case board
    from GetPossibleMoves_ok[OF board(3,4)] GetPossibleMoves_SomeD(3)[OF board(3,4)] board(1,2)
    show ?thesis
      by (simp add: legalShape_def boardMoveOk_def)
  next
    case drop
    then obtain k where k: "k \<in> set (moverHand b)" and m: "m \<in> set (dropsOf b k)"
      unfolding GetDropMoves_mem by blast
    from m obtain r c where "m = Mv (-1) (-1) r c True k False" "isInBoard r c"
      "Owner (cell b r c) = NoneP"
      unfolding dropsOf_mem by blast
    with k show ?thesis
      by (simp add: legalShape_def)
  qed
qed

section \<open>Material is conserved by legal moves\<close>

lemma sum_list_map_change_one:
  fixes f f' :: "'a \<Rightarrow> nat"
  assumes "distinct xs" and "x \<in> set xs"
    and "\<And>y. y \<in> set xs \<Longrightarrow> y \<noteq> x \<Longrightarrow> f' y = f y"
  shows "sum_list (map f' xs) + f x = sum_list (map f xs) + f' x"
  using assms
proof (induction xs)
  case Nil
  then show ?case by simp
next
  case (Cons a xs)
  show ?case
  proof (cases "a = x")
    case True
    with Cons.prems(1) have "x \<notin> set xs" by simp
    with Cons.prems(3) have "\<And>y. y \<in> set xs \<Longrightarrow> f' y = f y" by auto
    then have "map f' xs = map f xs" by (rule map_cong[OF refl])
    then have "sum_list (map f' xs) = sum_list (map f xs)" by (rule arg_cong)
    with True show ?thesis by (simp del: map_eq_conv)
  next
    case False
    with Cons.prems have "sum_list (map f' xs) + f x = sum_list (map f xs) + f' x"
      by (intro Cons.IH) auto
    moreover from False Cons.prems(3) have "f' a = f a" by simp
    ultimately show ?thesis by simp
  qed
qed

lemma boardSum_setCell:
  assumes "isInBoard r c"
  shows "boardSum g (setCell b r c p) + g (cell b r c) = boardSum g b + g p"
proof -
  let ?f = "\<lambda>(r', c'). g (cell b r' c')"
  let ?f' = "\<lambda>(r', c'). g (cell (setCell b r c p) r' c')"
  have "sum_list (map ?f' allCells) + ?f (r, c) = sum_list (map ?f allCells) + ?f' (r, c)"
  proof (rule sum_list_map_change_one)
    show "distinct allCells" by (rule distinct_allCells)
    show "(r, c) \<in> set allCells" using assms by (simp add: set_allCells)
  next
    fix y assume y: "y \<in> set allCells" "y \<noteq> (r, c)"
    obtain r' c' where [simp]: "y = (r', c')" by (cases y)
    from y have "isInBoard r' c'" by (simp add: set_allCells)
    with assms y(2) show "?f' y = ?f y"
      by (auto simp: cell_setCell)
  qed
  with assms show ?thesis
    by (simp add: boardSum_def cell_setCell)
qed

lemma boardSum_same_cells: "Cells b' = Cells b \<Longrightarrow> boardSum g b' = boardSum g b"
  by (simp add: boardSum_def cell_def)

lemma boardSum_upd [simp]:
  "boardSum g (b\<lparr>FirstHand := h\<rparr>) = boardSum g b"
  "boardSum g (b\<lparr>SecondHand := h\<rparr>) = boardSum g b"
  "boardSum g (b\<lparr>CurrentTurn := t\<rparr>) = boardSum g b"
  by (simp_all add: boardSum_def)

lemma weight_flipTurn: "weight w (flipTurn b) = weight w b"
  by (simp add: weight_def boardSum_same_cells[of "flipTurn b" b])

lemma MakeMove_turn:
  assumes "MakeMove b m = Some b'"
  shows "CurrentTurn b' = (if CurrentTurn b = First then Second else First)"
proof (cases "IsDrop m")
  case True
  with assms show ?thesis
    by (auto simp: MakeMove_def Let_def CurrentTurn_flipTurn split: if_splits)
next
  case False
  with assms show ?thesis
    by (auto simp: MakeMove_def Let_def CurrentTurn_flipTurn split: if_splits)
qed

lemma MakeMove_legal_Some: "legalShape b m \<Longrightarrow> \<exists>b'. MakeMove b m = Some b'"
  by (auto simp: legalShape_def MakeMove_def Let_def)

text \<open>The weight of a state after a legal move, for a weight that does not tell a promoted
  kind from its base kind. It is unchanged, except that a drop by the pseudo-player
  \<^verbatim>\<open>None\<close> loses the dropped piece (the piece lands with owner \<^verbatim>\<open>None\<close>, an empty cell).\<close>

lemma weight_MakeMove:
  assumes inv: "\<And>t. w (baseKind t) = w t"
    and legal: "legalShape b m" and mm: "MakeMove b m = Some b'"
  shows "weight w b' + (if CurrentTurn b = NoneP then w (DropPiece m) else 0) = weight w b"
proof (cases "IsDrop m")
  case True
  let ?k = "DropPiece m" and ?r = "ToRow m" and ?c = "ToCol m"
  from legal True have inb: "isInBoard ?r ?c" and emp: "Owner (cell b ?r ?c) = NoneP"
    and k: "?k \<in> set (moverHand b)"
    by (simp_all add: legalShape_def)
  let ?b1 = "setCell b ?r ?c (Pc ?k (CurrentTurn b))"
  have bs: "boardSum (onBoard w) ?b1 = boardSum (onBoard w) b + onBoard w (Pc ?k (CurrentTurn b))"
    using boardSum_setCell[OF inb, of "onBoard w" b "Pc ?k (CurrentTurn b)"] emp
    by (simp add: onBoard_def)
  show ?thesis
  proof (cases "CurrentTurn b = Second")
    case snd: True
    with mm True inb have b': "b' = flipTurn (?b1\<lparr>SecondHand := remove1 ?k (SecondHand b)\<rparr>)"
      by (simp add: MakeMove_def Let_def)
    from k snd have "?k \<in> set (SecondHand b)" by (simp add: moverHand_def)
    then have "sum_list (map w (SecondHand b)) = w ?k + sum_list (map w (remove1 ?k (SecondHand b)))"
      by (rule sum_list_map_remove1)
    with bs snd show ?thesis
      unfolding b' weight_flipTurn
      by (simp add: weight_def onBoard_def)
  next
    case nsnd: False
    with mm True inb have b': "b' = flipTurn (?b1\<lparr>FirstHand := remove1 ?k (FirstHand b)\<rparr>)"
      by (simp add: MakeMove_def Let_def)
    from k nsnd have "?k \<in> set (FirstHand b)" by (simp add: moverHand_def)
    then have "sum_list (map w (FirstHand b)) = w ?k + sum_list (map w (remove1 ?k (FirstHand b)))"
      by (rule sum_list_map_remove1)
    with bs nsnd show ?thesis
      unfolding b' weight_flipTurn
      by (simp add: weight_def onBoard_def)
  qed
next
  case False
  let ?fr = "FromRow m" and ?fc = "FromCol m" and ?tr = "ToRow m" and ?tc = "ToCol m"
  from legal False have inf: "isInBoard ?fr ?fc" and int: "isInBoard ?tr ?tc"
    and own: "Owner (cell b ?fr ?fc) = CurrentTurn b" and turn: "CurrentTurn b \<noteq> NoneP"
    and opp: "Owner (cell b ?tr ?tc) \<noteq> CurrentTurn b"
    by (simp_all add: legalShape_def)
  define piece where "piece = cell b ?fr ?fc"
  define captured where "captured = cell b ?tr ?tc"
  define b1 where "b1 = (if Owner captured \<noteq> NoneP then
                       (let capturedType =
                              (case Type captured of
                                 PromotedSilver \<Rightarrow> Silver
                               | PromotedBishop \<Rightarrow> Bishop
                               | PromotedRook \<Rightarrow> Rook
                               | PromotedPawn \<Rightarrow> Pawn
                               | t \<Rightarrow> t)
                        in if CurrentTurn b = First
                           then b\<lparr>FirstHand := FirstHand b @ [capturedType]\<rparr>
                           else b\<lparr>SecondHand := SecondHand b @ [capturedType]\<rparr>)
                     else b)"
  define piece' where "piece' = (if Promote m then
                           (case Type piece of
                              Silver \<Rightarrow> piece\<lparr>Type := PromotedSilver\<rparr>
                            | Bishop \<Rightarrow> piece\<lparr>Type := PromotedBishop\<rparr>
                            | Rook \<Rightarrow> piece\<lparr>Type := PromotedRook\<rparr>
                            | Pawn \<Rightarrow> piece\<lparr>Type := PromotedPawn\<rparr>
                            | _ \<Rightarrow> piece)
                         else piece)"
  define b2 where "b2 = setCell b1 ?tr ?tc piece'"
  define b3 where "b3 = setCell b2 ?fr ?fc (Pc Empty NoneP)"
  from mm False inf int have b': "b' = flipTurn b3"
    unfolding MakeMove_def b3_def b2_def b1_def piece'_def piece_def captured_def Let_def
    by simp
  have base: "(case k of PromotedSilver \<Rightarrow> Silver | PromotedBishop \<Rightarrow> Bishop
      | PromotedRook \<Rightarrow> Rook | PromotedPawn \<Rightarrow> Pawn | t \<Rightarrow> t) = baseKind k" for k
    by (cases k) simp_all
  have cells1: "Cells b1 = Cells b"
    by (simp add: b1_def Let_def)
  have hands1: "sum_list (map w (FirstHand b1)) + sum_list (map w (SecondHand b1))
      = sum_list (map w (FirstHand b)) + sum_list (map w (SecondHand b)) + onBoard w captured"
    by (simp add: b1_def Let_def base inv onBoard_def)
  have ne: "\<not> (?fr = ?tr \<and> ?fc = ?tc)"
    using own opp by auto
  have "onBoard w piece' = onBoard w piece"
  proof (cases "Promote m")
    case True
    have "Owner piece' = Owner piece \<and> baseKind (Type piece') = baseKind (Type piece)"
      unfolding piece'_def using True by (cases "Type piece") simp_all
    then show ?thesis
      using inv[of "Type piece'"] inv[of "Type piece"] by (simp add: onBoard_def)
  next
    case False
    then show ?thesis by (simp add: piece'_def)
  qed
  moreover have "boardSum (onBoard w) b2 + onBoard w captured
      = boardSum (onBoard w) b + onBoard w piece'"
    using boardSum_setCell[OF int, of "onBoard w" b1 piece'] cells1
    by (simp add: b2_def captured_def cell_def boardSum_same_cells[of b1 b])
  moreover have "cell b2 ?fr ?fc = (if ?fr = ?tr \<and> ?fc = ?tc then piece' else cell b1 ?fr ?fc)"
    unfolding b2_def by (rule cell_setCell[OF int inf])
  then have "cell b2 ?fr ?fc = cell b1 ?fr ?fc"
    by (simp only: ne if_False)
  then have "cell b2 ?fr ?fc = piece"
    using cells1 by (simp add: piece_def cell_def)
  then have "boardSum (onBoard w) b3 + onBoard w piece = boardSum (onBoard w) b2"
    using boardSum_setCell[OF inf, of "onBoard w" b2 "Pc Empty NoneP"]
    by (simp add: b3_def onBoard_def)
  ultimately have "boardSum (onBoard w) b3 + onBoard w captured = boardSum (onBoard w) b"
    by simp
  moreover have "FirstHand b3 = FirstHand b1" "SecondHand b3 = SecondHand b1"
    by (simp_all add: b3_def b2_def)
  ultimately show ?thesis
    unfolding b' weight_flipTurn using hands1 turn
    by (simp add: weight_def)
qed

lemma baseKind_idem: "baseKind (baseKind t) = baseKind t"
  by (cases t) simp_all

lemma reachable_turn: "reachable b \<Longrightarrow> CurrentTurn b \<noteq> NoneP"
proof (induction rule: reachable.induct)
  case init
  show ?case by (simp add: NewBoard_def)
next
  case (step b rk ms m b')
  from MakeMove_turn[OF step.hyps(4)] show ?case by simp
qed

lemma weight_reachable:
  assumes "\<And>t. w (baseKind t) = w t" and "reachable b"
  shows "weight w b = weight w NewBoard"
  using assms(2)
proof (induction rule: reachable.induct)
  case init
  show ?case ..
next
  case (step b rk ms m b')
  from weight_MakeMove[of w b m b', OF assms(1) legal_move_shape[OF step.hyps(2,3)] step.hyps(4)]
    reachable_turn[OF step.hyps(1)] step.IH
  show ?case by simp
qed

text \<open>
  C2 (amended). In every state reachable from the initial position by moves of
  \<^verbatim>\<open>GetAllLegalMoves\<close>, and for every kind \<open>k\<close>, the number of pieces whose base
  (unpromoted) kind is \<open>k\<close>, counted over the board and both hands, is the number in the
  initial position. The count of a kind itself is not conserved: a promotion turns a
  Bishop into a PromotedBishop (\<open>promotion_changes_kind_count\<close>).
\<close>

theorem material_conserved:
  "reachable b \<Longrightarrow> baseCount k b = baseCount k NewBoard"
  unfolding baseCount_def
  using weight_reachable[of "\<lambda>t. if baseKind t = k then 1 else 0" b]
  by (simp add: baseKind_idem)

lemma reachable_board_step:
  assumes "reachable b" and "isInBoard r c" and "Owner (cell b r c) = CurrentTurn b"
    and "GetPossibleMoves b r c = Some ms'" and "m \<in> set ms'" and "MakeMove b m = Some b'"
  shows "reachable b'"
proof -
  obtain ms where ms: "GetAllLegalMoves (\<lambda>k. 0) b = Some ms"
    using GetAllLegalMoves_Some[of "\<lambda>k. 0" b] by blast
  have "m \<in> set ms"
    unfolding GetAllLegalMoves_mem[OF ms] using assms(2-5) by blast
  from reachable.step[OF assms(1) ms this assms(6)] show ?thesis .
qed

lemma reachable_bishopOut: "reachable bishopOut"
proof (rule reachable_board_step[OF reachable.init])
  show "isInBoard 4 3" by (simp add: isInBoard_def)
  show "Owner (cell NewBoard 4 3) = CurrentTurn NewBoard" by code_simp
  show "GetPossibleMoves NewBoard 4 3 = Some
    [Mv 4 3 3 2 False Empty False, Mv 4 3 2 1 False Empty False,
     Mv 4 3 1 0 False Empty False, Mv 4 3 3 4 False Empty False]" by code_simp
  show "Mv 4 3 2 1 False Empty False \<in> set
    [Mv 4 3 3 2 False Empty False, Mv 4 3 2 1 False Empty False,
     Mv 4 3 1 0 False Empty False, Mv 4 3 3 4 False Empty False]" by simp
  show "MakeMove NewBoard (Mv 4 3 2 1 False Empty False) = Some bishopOut" by code_simp
qed

lemma reachable_pawnUp: "reachable pawnUp"
proof (rule reachable_board_step[OF reachable_bishopOut])
  show "isInBoard 1 4" by (simp add: isInBoard_def)
  show "Owner (cell bishopOut 1 4) = CurrentTurn bishopOut" by code_simp
  show "GetPossibleMoves bishopOut 1 4 = Some [Mv 1 4 2 4 False Empty False]" by code_simp
  show "Mv 1 4 2 4 False Empty False \<in> set [Mv 1 4 2 4 False Empty False]" by simp
  show "MakeMove bishopOut (Mv 1 4 2 4 False Empty False) = Some pawnUp" by code_simp
qed

lemma reachable_bishopPromoted: "reachable bishopPromoted"
proof (rule reachable_board_step[OF reachable_pawnUp])
  show "isInBoard 2 1" by (simp add: isInBoard_def)
  show "Owner (cell pawnUp 2 1) = CurrentTurn pawnUp" by code_simp
  show "GetPossibleMoves pawnUp 2 1 = Some
    [Mv 2 1 1 0 False Empty False, Mv 2 1 1 2 False Empty False,
     Mv 2 1 0 3 False Empty True, Mv 2 1 0 3 False Empty False,
     Mv 2 1 3 2 False Empty False, Mv 2 1 4 3 False Empty False]" by code_simp
  show "Mv 2 1 0 3 False Empty True \<in> set
    [Mv 2 1 1 0 False Empty False, Mv 2 1 1 2 False Empty False,
     Mv 2 1 0 3 False Empty True, Mv 2 1 0 3 False Empty False,
     Mv 2 1 3 2 False Empty False, Mv 2 1 4 3 False Empty False]" by simp
  show "MakeMove pawnUp (Mv 2 1 0 3 False Empty True) = Some bishopPromoted" by code_simp
qed

text \<open>Inputs for C2: after three legal plies from the initial position First's Bishop has
  promoted on \<open>(0, 3)\<close>; one Bishop is left where the initial position has two, while
  the pieces of base kind Bishop are still two.\<close>

theorem promotion_changes_kind_count:
  "reachable bishopPromoted \<and> kindCount Bishop bishopPromoted = 1 \<and> kindCount Bishop NewBoard = 2"
proof -
  have "kindCount Bishop bishopPromoted = 1" by code_simp
  moreover have "kindCount Bishop NewBoard = 2" by code_simp
  ultimately show ?thesis using reachable_bishopPromoted by simp
qed

theorem material_conserved_witness:
  "reachable bishopPromoted \<and> baseCount Bishop bishopPromoted = baseCount Bishop NewBoard"
  using material_conserved[OF reachable_bishopPromoted, of Bishop] reachable_bishopPromoted
  by simp

section \<open>No King in a hand while both Kings stand\<close>

lemma sum_list_two_le:
  fixes f :: "'a \<Rightarrow> nat"
  assumes "x \<in> set xs" and "y \<in> set xs" and "x \<noteq> y"
  shows "f x + f y \<le> sum_list (map f xs)"
proof -
  have "sum_list (map f xs) = f x + sum_list (map f (remove1 x xs))"
    using assms(1) by (rule sum_list_map_remove1)
  moreover have "y \<in> set (remove1 x xs)"
    using assms(2,3) by simp
  then have "sum_list (map f (remove1 x xs)) = f y + sum_list (map f (remove1 y (remove1 x xs)))"
    by (rule sum_list_map_remove1)
  ultimately show ?thesis by simp
qed

lemma both_kings_on_board:
  assumes "hasKing b First" and "hasKing b Second"
  shows "2 \<le> boardSum (onBoard (\<lambda>t. if baseKind t = King then 1 else 0)) b"
proof -
  let ?g = "\<lambda>(r, c). onBoard (\<lambda>t. if baseKind t = King then 1 else 0) (cell b r c)"
  from assms(1) obtain r1 c1 where x: "(r1, c1) \<in> set allCells"
    and kx: "Type (cell b r1 c1) = King" and ox: "Owner (cell b r1 c1) = First"
    unfolding hasKing_def list_ex_iff by blast
  from assms(2) obtain r2 c2 where y: "(r2, c2) \<in> set allCells"
    and ky: "Type (cell b r2 c2) = King" and oy: "Owner (cell b r2 c2) = Second"
    unfolding hasKing_def list_ex_iff by blast
  have ne: "(r1, c1) \<noteq> (r2, c2)"
  proof
    assume "(r1, c1) = (r2, c2)"
    then have "Owner (cell b r1 c1) = Owner (cell b r2 c2)" by simp
    with ox oy show False by simp
  qed
  have gx: "?g (r1, c1) = 1" using kx ox by (simp add: onBoard_def)
  have gy: "?g (r2, c2) = 1" using ky oy by (simp add: onBoard_def)
  from sum_list_two_le[OF x y ne, of ?g] gx gy
  show ?thesis by (simp add: boardSum_def)
qed

lemma sum_list_indicator_zero:
  assumes "sum_list (map (\<lambda>t. if P t then 1 else 0 :: nat) xs) = 0"
  shows "\<forall>t\<in>set xs. \<not> P t"
proof
  fix t assume "t \<in> set xs"
  then have "(if P t then 1 else 0 :: nat) \<in> set (map (\<lambda>t. if P t then 1 else 0 :: nat) xs)"
    unfolding set_map by (rule imageI[of t "set xs" "\<lambda>t. if P t then 1 else 0 :: nat"])
  with assms have "(if P t then 1 else 0 :: nat) = 0"
    unfolding sum_list_eq_0_iff by blast
  then show "\<not> P t" by (cases "P t") simp_all
qed

lemma baseCount_King_NewBoard: "baseCount King NewBoard = 2"
  by code_simp

text \<open>
  C10. In every state reachable from the initial position by moves of
  \<^verbatim>\<open>GetAllLegalMoves\<close> in which the game is not over (\<^verbatim>\<open>IsGameOver\<close> reports false: both
  Kings are on the board), no move of \<^verbatim>\<open>GetDropMoves\<close> drops a King.
\<close>

theorem no_King_drop:
  assumes "reachable b" and "\<not> fst (IsGameOver b)"
  shows "\<forall>m\<in>set (GetDropMoves rk b). DropPiece m \<noteq> King"
proof
  fix m assume m: "m \<in> set (GetDropMoves rk b)"
  let ?w = "\<lambda>t. if baseKind t = King then 1 else 0 :: nat"
  from assms(2) have kings: "hasKing b First" "hasKing b Second"
    by (auto simp: IsGameOver_def Let_def split: if_splits)
  have "weight ?w b = 2"
    using material_conserved[OF assms(1), of King] baseCount_King_NewBoard
    unfolding baseCount_def by (rule trans)
  then have "boardSum (onBoard ?w) b + sum_list (map ?w (FirstHand b))
      + sum_list (map ?w (SecondHand b)) = 2"
    unfolding weight_def .
  with both_kings_on_board[OF kings]
  have z: "sum_list (map ?w (FirstHand b)) = 0" "sum_list (map ?w (SecondHand b)) = 0"
    by linarith+
  have "\<forall>t\<in>set (FirstHand b). baseKind t \<noteq> King"
    using z(1) by (rule sum_list_indicator_zero)
  moreover have "\<forall>t\<in>set (SecondHand b). baseKind t \<noteq> King"
    using z(2) by (rule sum_list_indicator_zero)
  ultimately have "King \<notin> set (moverHand b)"
    unfolding moverHand_def by (cases "CurrentTurn b = Second") force+
  moreover from m obtain k where "k \<in> set (moverHand b)" "m \<in> set (dropsOf b k)"
    unfolding GetDropMoves_mem by blast
  moreover from this(2) have "DropPiece m = k"
    unfolding dropsOf_mem by fastforce
  ultimately show "DropPiece m \<noteq> King" by auto
qed

section \<open>Alpha-beta against the full minimax\<close>

subsection \<open>Scores stay between the sentinels\<close>

lemma sum_list_abs_bound:
  fixes f :: "'a \<Rightarrow> int" and g :: "'a \<Rightarrow> nat"
  assumes "\<And>x. x \<in> set xs \<Longrightarrow> \<bar>f x\<bar> \<le> 10000 * int (g x)"
  shows "\<bar>sum_list (map f xs)\<bar> \<le> 10000 * int (sum_list (map g xs))"
  using assms
proof (induction xs)
  case Nil
  then show ?case by simp
next
  case (Cons a xs)
  have "\<bar>f a\<bar> \<le> 10000 * int (g a)" using Cons.prems by simp
  moreover have "\<bar>sum_list (map f xs)\<bar> \<le> 10000 * int (sum_list (map g xs))"
    using Cons by simp
  ultimately show ?case by simp
qed

lemma pieceValues_range: "0 \<le> pieceValues t \<and> pieceValues t \<le> 10000"
  by (cases t) simp_all

lemma hand_value_range: "\<bar>pieceValues t * 8 div 10\<bar> \<le> 10000 * int 1"
  by (cases t) simp_all

lemma cellScore_bound: "\<bar>cellScore p\<bar> \<le> 10000 * int (onBoard (\<lambda>t. 1) p)"
  using pieceValues_range[of "Type p"] by (cases "Owner p") (simp_all add: cellScore_def onBoard_def)

lemma Evaluate_bound: "\<bar>Evaluate b\<bar> \<le> 10000 * int (pieceCount b)"
proof -
  have "\<bar>sum_list (map (\<lambda>(r, c). cellScore (cell b r c)) allCells)\<bar>
      \<le> 10000 * int (sum_list (map (\<lambda>(r, c). onBoard (\<lambda>t. 1) (cell b r c)) allCells))"
    by (rule sum_list_abs_bound) (simp only: split_beta cellScore_bound)
  moreover have "\<bar>sum_list (map (\<lambda>p. pieceValues p * 8 div 10) (FirstHand b))\<bar>
      \<le> 10000 * int (sum_list (map (\<lambda>t. 1) (FirstHand b)))"
    by (rule sum_list_abs_bound) (rule hand_value_range)
  moreover have "\<bar>sum_list (map (\<lambda>p. pieceValues p * 8 div 10) (SecondHand b))\<bar>
      \<le> 10000 * int (sum_list (map (\<lambda>t. 1) (SecondHand b)))"
    by (rule sum_list_abs_bound) (rule hand_value_range)
  ultimately have "\<bar>sum_list (map (\<lambda>(r, c). cellScore (cell b r c)) allCells)
      + sum_list (map (\<lambda>p. pieceValues p * 8 div 10) (FirstHand b))
      - sum_list (map (\<lambda>p. pieceValues p * 8 div 10) (SecondHand b))\<bar>
      \<le> 10000 * int (sum_list (map (\<lambda>(r, c). onBoard (\<lambda>t. 1) (cell b r c)) allCells))
        + 10000 * int (sum_list (map (\<lambda>t. 1) (FirstHand b)))
        + 10000 * int (sum_list (map (\<lambda>t. 1) (SecondHand b)))"
    by linarith
  then show ?thesis
    unfolding Evaluate_def pieceCount_def weight_def boardSum_def of_nat_add distrib_left .
qed

lemma Evaluate_in_sentinels:
  assumes "pieceCount b \<le> 99"
  shows "- 999999 \<le> Evaluate b \<and> Evaluate b \<le> 999999"
proof -
  from assms have "10000 * int (pieceCount b) \<le> 990000" by simp
  with Evaluate_bound[of b] show ?thesis by linarith
qed

lemma pieceCount_MakeMove:
  assumes "legalShape b m" and "MakeMove b m = Some b'"
  shows "pieceCount b' \<le> pieceCount b"
  using weight_MakeMove[of "\<lambda>t. 1" b m b', OF _ assms] unfolding pieceCount_def by simp

lemma legal_children:
  assumes "GetAllLegalMoves rk b = Some ms" and "pieceCount b \<le> 99" and "m \<in> set ms"
  shows "\<exists>nb. MakeMove b m = Some nb \<and> pieceCount nb \<le> 99"
proof -
  from legal_move_shape[OF assms(1,3)] have l: "legalShape b m" .
  then obtain nb where nb: "MakeMove b m = Some nb"
    using MakeMove_legal_Some by blast
  from pieceCount_MakeMove[OF l nb] assms(2) nb show ?thesis by simp
qed

subsection \<open>The values of the children\<close>

lemma childValues_Some:
  assumes "soundAt d"
    and "\<And>m. m \<in> set ms \<Longrightarrow> \<exists>nb. MakeMove b m = Some nb \<and> pieceCount nb \<le> 99"
  shows "\<exists>vs. childValues sch d maximizing b ms = Some vs \<and> length vs = length ms
     \<and> (\<forall>v\<in>set vs. - 999999 \<le> v \<and> v \<le> 999999)"
  using assms(2)
proof (induction ms)
  case Nil
  then show ?case by simp
next
  case (Cons m ms)
  from Cons.prems[of m] obtain nb where nb: "MakeMove b m = Some nb" "pieceCount nb \<le> 99"
    by auto
  from assms(1) nb(2) obtain v where v: "fullMinimax (\<lambda>p. sch (m # p)) d (\<not> maximizing) nb = Some v"
    "- 999999 \<le> v" "v \<le> 999999"
    unfolding soundAt_def by (metis zero_less_one)
  from Cons.IH Cons.prems obtain vs where vs: "childValues sch d maximizing b ms = Some vs"
    "length vs = length ms" "\<forall>v\<in>set vs. - 999999 \<le> v \<and> v \<le> 999999"
    by auto
  from nb v vs show ?case by simp
qed

subsection \<open>The maximizing loop\<close>

lemma maxLoop_step:
  assumes "MakeMove b m = Some nb"
    and "Minimax (\<lambda>p. sch (m # p)) d alpha beta False nb = Some (e, mv)"
  shows "maxLoop sch d b (m # ms) alpha beta me best =
     (if beta \<le> max alpha e
      then Some (if e > me then e else me, if e > me then Some m else best)
      else maxLoop sch d b ms (max alpha e) beta (if e > me then e else me)
             (if e > me then Some m else best))"
  using assms by (simp add: Let_def)

lemma minLoop_step:
  assumes "MakeMove b m = Some nb"
    and "Minimax (\<lambda>p. sch (m # p)) d alpha beta True nb = Some (e, mv)"
  shows "minLoop sch d b (m # ms) alpha beta me best =
     (if min beta e \<le> alpha
      then Some (if e < me then e else me, if e < me then Some m else best)
      else minLoop sch d b ms alpha (min beta e) (if e < me then e else me)
             (if e < me then Some m else best))"
  using assms by (simp add: Let_def)

lemma childValues_step:
  assumes "MakeMove b m = Some nb"
    and "fullMinimax (\<lambda>p. sch (m # p)) d (\<not> maximizing) nb = Some v"
    and "childValues sch d maximizing b ms = Some vs"
  shows "childValues sch d maximizing b (m # ms) = Some (v # vs)"
  using assms by simp

lemma maxLoop_sound:
  assumes snd: "soundAt d"
    and kids: "\<And>m. m \<in> set ms \<Longrightarrow> \<exists>nb. MakeMove b m = Some nb \<and> pieceCount nb \<le> 99"
    and win: "alpha < beta"
  shows "\<exists>r mv vs. maxLoop sch d b ms alpha beta me best = Some (r, mv)
     \<and> childValues sch d True b ms = Some vs
     \<and> me \<le> r
     \<and> (beta \<le> r \<longrightarrow> r = me \<or> (\<exists>v\<in>set vs. r \<le> v))
     \<and> (r < beta \<longrightarrow> (\<forall>v\<in>set vs. v \<le> r))
     \<and> (me < r \<and> alpha < r \<and> r < beta \<longrightarrow> r \<in> set vs)"
  using kids win
proof (induction ms arbitrary: alpha me best)
  case Nil
  then show ?case by simp
next
  case (Cons m ms)
  from Cons.prems(1)[of m] obtain nb where nb: "MakeMove b m = Some nb" "pieceCount nb \<le> 99"
    by auto
  from snd nb(2) Cons.prems(2) obtain e mv0 v0 where
    ch: "Minimax (\<lambda>p. sch (m # p)) d alpha beta False nb = Some (e, mv0)"
    and fv: "fullMinimax (\<lambda>p. sch (m # p)) d False nb = Some v0"
    and ws: "windowScore alpha beta e v0"
    unfolding soundAt_def by blast
  have kids': "\<And>m'. m' \<in> set ms \<Longrightarrow> \<exists>nb. MakeMove b m' = Some nb \<and> pieceCount nb \<le> 99"
    using Cons.prems(1) by simp
  from childValues_Some[where ms = ms and b = b and sch = sch and maximizing = True, OF snd kids'] obtain vs where
    vs: "childValues sch d True b ms = Some vs"
    by blast
  have cv: "childValues sch d True b (m # ms) = Some (v0 # vs)"
    using nb(1) fv vs by (intro childValues_step) simp_all
  define me' where "me' = (if e > me then e else me)"
  define best' where "best' = (if e > me then Some m else best)"
  note step = maxLoop_step[OF nb(1) ch, of ms me best, folded me'_def best'_def]
  show ?case
  proof (cases "beta \<le> max alpha e")
    case True
    with Cons.prems(2) have be: "beta \<le> e" by linarith
    with ws Cons.prems(2) have "e \<le> v0" by (simp add: windowScore_def)
    with be have "me \<le> me'" "beta \<le> me' \<longrightarrow> me' = me \<or> (\<exists>v\<in>set (v0 # vs). me' \<le> v)"
      "\<not> me' < beta"
      by (auto simp: me'_def)
    moreover have "maxLoop sch d b (m # ms) alpha beta me best = Some (me', best')"
      using step True by simp
    ultimately show ?thesis
      using cv by blast
  next
    case False
    then have open': "max alpha e < beta" by linarith
    then have eb: "e < beta" by linarith
    from ws eb have v0e: "v0 \<le> e" and v0eq: "alpha < e \<longrightarrow> v0 = e"
      by (auto simp: windowScore_def)
    from Cons.IH[OF kids' open', of me' best'] vs obtain r mv where
      loop: "maxLoop sch d b ms (max alpha e) beta me' best' = Some (r, mv)"
      and i1: "me' \<le> r"
      and i2: "beta \<le> r \<longrightarrow> r = me' \<or> (\<exists>v\<in>set vs. r \<le> v)"
      and i3: "r < beta \<longrightarrow> (\<forall>v\<in>set vs. v \<le> r)"
      and i4: "me' < r \<and> max alpha e < r \<and> r < beta \<longrightarrow> r \<in> set vs"
      by auto
    have res: "maxLoop sch d b (m # ms) alpha beta me best = Some (r, mv)"
      using step False loop by simp
    have c1: "me \<le> r"
      using i1 by (simp add: me'_def split: if_splits)
    have c2: "beta \<le> r \<longrightarrow> r = me \<or> (\<exists>v\<in>set (v0 # vs). r \<le> v)"
    proof
      assume br: "beta \<le> r"
      with i2 consider "r = me'" | "\<exists>v\<in>set vs. r \<le> v" by blast
      then show "r = me \<or> (\<exists>v\<in>set (v0 # vs). r \<le> v)"
      proof cases
        case 1
        with br eb have "r = me" by (simp add: me'_def split: if_splits)
        then show ?thesis ..
      next
        case 2
        then show ?thesis by auto
      qed
    qed
    have c3: "r < beta \<longrightarrow> (\<forall>v\<in>set (v0 # vs). v \<le> r)"
    proof
      assume "r < beta"
      with i3 have "\<forall>v\<in>set vs. v \<le> r" by blast
      moreover have "v0 \<le> r"
        using v0e i1 by (simp add: me'_def split: if_splits)
      ultimately show "\<forall>v\<in>set (v0 # vs). v \<le> r" by simp
    qed
    have c4: "me < r \<and> alpha < r \<and> r < beta \<longrightarrow> r \<in> set (v0 # vs)"
    proof
      assume a: "me < r \<and> alpha < r \<and> r < beta"
      show "r \<in> set (v0 # vs)"
      proof (cases "me' < r \<and> max alpha e < r")
        case True
        with i4 a have "r \<in> set vs" by blast
        then show ?thesis by simp
      next
        case False
        with i1 a have "r = e"
          by (auto simp: me'_def split: if_splits)
        with a v0eq have "v0 = r" by simp
        then show ?thesis by simp
      qed
    qed
    from res cv c1 c2 c3 c4 show ?thesis by blast
  qed
qed

subsection \<open>The minimizing loop\<close>

lemma minLoop_sound:
  assumes snd: "soundAt d"
    and kids: "\<And>m. m \<in> set ms \<Longrightarrow> \<exists>nb. MakeMove b m = Some nb \<and> pieceCount nb \<le> 99"
    and win: "alpha < beta"
  shows "\<exists>r mv vs. minLoop sch d b ms alpha beta me best = Some (r, mv)
     \<and> childValues sch d False b ms = Some vs
     \<and> r \<le> me
     \<and> (r \<le> alpha \<longrightarrow> r = me \<or> (\<exists>v\<in>set vs. v \<le> r))
     \<and> (alpha < r \<longrightarrow> (\<forall>v\<in>set vs. r \<le> v))
     \<and> (r < me \<and> r < beta \<and> alpha < r \<longrightarrow> r \<in> set vs)"
  using kids win
proof (induction ms arbitrary: beta me best)
  case Nil
  then show ?case by simp
next
  case (Cons m ms)
  from Cons.prems(1)[of m] obtain nb where nb: "MakeMove b m = Some nb" "pieceCount nb \<le> 99"
    by auto
  from snd nb(2) Cons.prems(2) obtain e mv0 v0 where
    ch: "Minimax (\<lambda>p. sch (m # p)) d alpha beta True nb = Some (e, mv0)"
    and fv: "fullMinimax (\<lambda>p. sch (m # p)) d True nb = Some v0"
    and ws: "windowScore alpha beta e v0"
    unfolding soundAt_def by blast
  have kids': "\<And>m'. m' \<in> set ms \<Longrightarrow> \<exists>nb. MakeMove b m' = Some nb \<and> pieceCount nb \<le> 99"
    using Cons.prems(1) by simp
  from childValues_Some[where ms = ms and b = b and sch = sch and maximizing = False, OF snd kids'] obtain vs where
    vs: "childValues sch d False b ms = Some vs"
    by blast
  have cv: "childValues sch d False b (m # ms) = Some (v0 # vs)"
    using nb(1) fv vs by (intro childValues_step) simp_all
  define me' where "me' = (if e < me then e else me)"
  define best' where "best' = (if e < me then Some m else best)"
  note step = minLoop_step[OF nb(1) ch, of ms me best, folded me'_def best'_def]
  show ?case
  proof (cases "min beta e \<le> alpha")
    case True
    with Cons.prems(2) have be: "e \<le> alpha" by linarith
    with ws Cons.prems(2) have "v0 \<le> e" by (simp add: windowScore_def)
    with be have "me' \<le> me" "me' \<le> alpha \<longrightarrow> me' = me \<or> (\<exists>v\<in>set (v0 # vs). v \<le> me')"
      "\<not> alpha < me'"
      by (auto simp: me'_def)
    moreover have "minLoop sch d b (m # ms) alpha beta me best = Some (me', best')"
      using step True by simp
    ultimately show ?thesis
      using cv by blast
  next
    case False
    then have open': "alpha < min beta e" by linarith
    then have eb: "alpha < e" by linarith
    from ws eb have v0e: "e \<le> v0" and v0eq: "e < beta \<longrightarrow> v0 = e"
      by (auto simp: windowScore_def)
    from Cons.IH[OF kids' open', of me' best'] vs obtain r mv where
      loop: "minLoop sch d b ms alpha (min beta e) me' best' = Some (r, mv)"
      and i1: "r \<le> me'"
      and i2: "r \<le> alpha \<longrightarrow> r = me' \<or> (\<exists>v\<in>set vs. v \<le> r)"
      and i3: "alpha < r \<longrightarrow> (\<forall>v\<in>set vs. r \<le> v)"
      and i4: "r < me' \<and> r < min beta e \<and> alpha < r \<longrightarrow> r \<in> set vs"
      by auto
    have res: "minLoop sch d b (m # ms) alpha beta me best = Some (r, mv)"
      using step False loop by simp
    have c1: "r \<le> me"
      using i1 by (simp add: me'_def split: if_splits)
    have c2: "r \<le> alpha \<longrightarrow> r = me \<or> (\<exists>v\<in>set (v0 # vs). v \<le> r)"
    proof
      assume br: "r \<le> alpha"
      with i2 consider "r = me'" | "\<exists>v\<in>set vs. v \<le> r" by blast
      then show "r = me \<or> (\<exists>v\<in>set (v0 # vs). v \<le> r)"
      proof cases
        case 1
        with br eb have "r = me" by (simp add: me'_def split: if_splits)
        then show ?thesis ..
      next
        case 2
        then show ?thesis by auto
      qed
    qed
    have c3: "alpha < r \<longrightarrow> (\<forall>v\<in>set (v0 # vs). r \<le> v)"
    proof
      assume "alpha < r"
      with i3 have "\<forall>v\<in>set vs. r \<le> v" by blast
      moreover have "r \<le> v0"
        using v0e i1 by (simp add: me'_def split: if_splits)
      ultimately show "\<forall>v\<in>set (v0 # vs). r \<le> v" by simp
    qed
    have c4: "r < me \<and> r < beta \<and> alpha < r \<longrightarrow> r \<in> set (v0 # vs)"
    proof
      assume a: "r < me \<and> r < beta \<and> alpha < r"
      show "r \<in> set (v0 # vs)"
      proof (cases "r < me' \<and> r < min beta e")
        case True
        with i4 a have "r \<in> set vs" by blast
        then show ?thesis by simp
      next
        case False
        with i1 a have "r = e"
          by (auto simp: me'_def split: if_splits)
        with a v0eq have "v0 = r" by simp
        then show ?thesis by simp
      qed
    qed
    from res cv c1 c2 c3 c4 show ?thesis by blast
  qed
qed

subsection \<open>Every depth\<close>

lemma soundAt_0: "soundAt 0"
  unfolding soundAt_def using Evaluate_in_sentinels by (simp add: windowScore_def)

lemma soundAt_Suc:
  assumes "soundAt d"
  shows "soundAt (Suc d)"
  unfolding soundAt_def
proof (intro allI impI)
  fix sch :: schedule and alpha beta :: int and maximizing :: bool and b :: Board
  assume fit: "pieceCount b \<le> 99" and win: "alpha < beta"
  note leaf = Evaluate_in_sentinels[OF fit]
  obtain ms where ms: "GetAllLegalMoves (sch []) b = Some ms"
    using GetAllLegalMoves_Some[of "sch []" b] by blast
  have kids: "\<And>m. m \<in> set ms \<Longrightarrow> \<exists>nb. MakeMove b m = Some nb \<and> pieceCount nb \<le> 99"
    using legal_children[OF ms fit] by blast
  show "\<exists>r mv v. Minimax sch (Suc d) alpha beta maximizing b = Some (r, mv)
           \<and> fullMinimax sch (Suc d) maximizing b = Some v
           \<and> - 999999 \<le> v \<and> v \<le> 999999 \<and> windowScore alpha beta r v"
  proof (cases "fst (IsGameOver b) \<or> ms = []")
    case True
    then have "Minimax sch (Suc d) alpha beta maximizing b = Some (Evaluate b, None)"
      "fullMinimax sch (Suc d) maximizing b = Some (Evaluate b)"
      using ms by auto
    with leaf show ?thesis by (simp add: windowScore_def)
  next
    case False
    then have ne: "ms \<noteq> []" and go: "\<not> fst (IsGameOver b)" by simp_all
    from childValues_Some[where ms = ms and b = b and sch = sch and maximizing = maximizing, OF assms kids]
    obtain vs where vs: "childValues sch d maximizing b ms = Some vs" "length vs = length ms"
      and rng: "\<forall>v\<in>set vs. - 999999 \<le> v \<and> v \<le> 999999"
      by blast
    from vs(2) ne have vne: "set vs \<noteq> {}" by auto
    show ?thesis
    proof (cases maximizing)
      case True
      let ?v = "Max (set vs)"
      have full: "fullMinimax sch (Suc d) maximizing b = Some ?v"
        using go ms ne vs(1) True by simp
      have vin: "?v \<in> set vs" using vne by (intro Max_in) simp_all
      with rng have vr: "- 999999 \<le> ?v" "?v \<le> 999999" by blast+
      from maxLoop_sound[where ms = ms and b = b and sch = sch and me = "- 999999" and best = None, OF assms kids win] vs(1) True
      obtain r mv where
        loop: "maxLoop sch d b ms alpha beta (- 999999) None = Some (r, mv)"
        and i1: "- 999999 \<le> r"
        and i2: "beta \<le> r \<longrightarrow> r = - 999999 \<or> (\<exists>v\<in>set vs. r \<le> v)"
        and i3: "r < beta \<longrightarrow> (\<forall>v\<in>set vs. v \<le> r)"
        and i4: "- 999999 < r \<and> alpha < r \<and> r < beta \<longrightarrow> r \<in> set vs"
        by auto
      have res: "Minimax sch (Suc d) alpha beta maximizing b = Some (r, mv)"
        using go ms ne True loop by simp
      have up: "r < beta \<Longrightarrow> ?v \<le> r"
        using i3 vin by blast
      have lo: "r \<in> set vs \<Longrightarrow> r \<le> ?v"
        by (intro Max_ge) simp_all
      have w1: "r \<le> alpha \<longrightarrow> ?v \<le> r"
        using up win by simp
      have w2: "beta \<le> r \<longrightarrow> r \<le> ?v"
      proof
        assume "beta \<le> r"
        with i2 consider "r = - 999999" | v where "v \<in> set vs" "r \<le> v" by blast
        then show "r \<le> ?v"
        proof cases
          case 1
          with vr show ?thesis by simp
        next
          case 2
          from 2(1) have "v \<le> ?v" by (intro Max_ge) simp_all
          with 2(2) show ?thesis by simp
        qed
      qed
      have w3: "alpha < r \<and> r < beta \<longrightarrow> ?v = r"
      proof
        assume a: "alpha < r \<and> r < beta"
        then have "?v \<le> r" using up by simp
        moreover have "r \<le> ?v"
        proof (cases "- 999999 < r")
          case True
          with i4 a have "r \<in> set vs" by blast
          then show ?thesis by (rule lo)
        next
          case False
          with i1 have "r = - 999999" by simp
          with vr show ?thesis by simp
        qed
        ultimately show "?v = r" by simp
      qed
      from res full vr w1 w2 w3 show ?thesis
        unfolding windowScore_def by blast
    next
      case False
      let ?v = "Min (set vs)"
      have full: "fullMinimax sch (Suc d) maximizing b = Some ?v"
        using go ms ne vs(1) False by simp
      have vin: "?v \<in> set vs" using vne by (intro Min_in) simp_all
      with rng have vr: "- 999999 \<le> ?v" "?v \<le> 999999" by blast+
      from minLoop_sound[where ms = ms and b = b and sch = sch and me = 999999 and best = None, OF assms kids win] vs(1) False
      obtain r mv where
        loop: "minLoop sch d b ms alpha beta 999999 None = Some (r, mv)"
        and i1: "r \<le> 999999"
        and i2: "r \<le> alpha \<longrightarrow> r = 999999 \<or> (\<exists>v\<in>set vs. v \<le> r)"
        and i3: "alpha < r \<longrightarrow> (\<forall>v\<in>set vs. r \<le> v)"
        and i4: "r < 999999 \<and> r < beta \<and> alpha < r \<longrightarrow> r \<in> set vs"
        by auto
      have res: "Minimax sch (Suc d) alpha beta maximizing b = Some (r, mv)"
        using go ms ne False loop by simp
      have up: "alpha < r \<Longrightarrow> r \<le> ?v"
        using i3 vin by blast
      have lo: "r \<in> set vs \<Longrightarrow> ?v \<le> r"
        by (intro Min_le) simp_all
      have w1: "beta \<le> r \<longrightarrow> r \<le> ?v"
        using up win by simp
      have w2: "r \<le> alpha \<longrightarrow> ?v \<le> r"
      proof
        assume "r \<le> alpha"
        with i2 consider "r = 999999" | v where "v \<in> set vs" "v \<le> r" by blast
        then show "?v \<le> r"
        proof cases
          case 1
          with vr show ?thesis by simp
        next
          case 2
          from 2(1) have "?v \<le> v" by (intro Min_le) simp_all
          with 2(2) show ?thesis by simp
        qed
      qed
      have w3: "alpha < r \<and> r < beta \<longrightarrow> ?v = r"
      proof
        assume a: "alpha < r \<and> r < beta"
        then have "r \<le> ?v" using up by simp
        moreover have "?v \<le> r"
        proof (cases "r < 999999")
          case True
          with i4 a have "r \<in> set vs" by blast
          then show ?thesis by (rule lo)
        next
          case False
          with i1 have "r = 999999" by simp
          with vr show ?thesis by simp
        qed
        ultimately show "?v = r" by simp
      qed
      from res full vr w1 w2 w3 show ?thesis
        unfolding windowScore_def by blast
    qed
  qed
qed

lemma soundAt_all: "soundAt d"
  by (induction d) (simp_all add: soundAt_0 soundAt_Suc)

lemma reachable_pieceCount: "reachable b \<Longrightarrow> pieceCount b = 12"
proof -
  assume "reachable b"
  then have "pieceCount b = pieceCount NewBoard"
    unfolding pieceCount_def by (intro weight_reachable) simp_all
  also have "pieceCount NewBoard = 12" by code_simp
  finally show ?thesis .
qed

text \<open>
  C1 (amended). For every board state that holds at most 99 pieces, on the board and in the
  two hands together (every state reachable in play holds 12), for every depth, either
  value of \<^verbatim>\<open>maximizing\<close> and every iteration order of the hands' kinds: \<^verbatim>\<open>Minimax\<close>
  called with the full window \<open>alpha = -999999\<close>, \<open>beta = 999999\<close> returns, and its
  score is the value of the unpruned minimax of the same tree to the same depth. With
  more pieces a static score can pass the sentinel \<open>999999\<close>, and then the pruned score
  differs (\<open>sentinel_overrun_counterexample\<close>).
\<close>

theorem alpha_beta_equals_minimax:
  assumes "pieceCount b \<le> 99"
  shows "\<exists>v mv. Minimax sch d (- 999999) 999999 maximizing b = Some (v, mv)
           \<and> fullMinimax sch d maximizing b = Some v"
proof -
  from soundAt_all[of d] assms obtain r mv v where
    res: "Minimax sch d (- 999999) 999999 maximizing b = Some (r, mv)"
    and full: "fullMinimax sch d maximizing b = Some v"
    and rng: "- 999999 \<le> v" "v \<le> 999999"
    and ws: "windowScore (- 999999) 999999 r v"
    unfolding soundAt_def by (metis neg_less_pos zero_less_numeral)
  from ws rng have "r = v"
    unfolding windowScore_def by linarith
  with res full show ?thesis by simp
qed

text \<open>Inputs for C1: the initial position at the depth of \<^verbatim>\<open>GetAIMove\<close>; and the position
  \<open>crowded\<close>, whose static score is above the sentinel: at depth 1 the loop stops after
  the first candidate with its score 1013200, while the best child (a Gold takes Second's
  King) scores 1031200.\<close>

theorem alpha_beta_equals_minimax_witness:
  "pieceCount NewBoard \<le> 99
   \<and> (\<exists>v mv. Minimax (\<lambda>p k. 0) 3 (- 999999) 999999 True NewBoard = Some (v, mv)
           \<and> fullMinimax (\<lambda>p k. 0) 3 True NewBoard = Some v)"
proof -
  have "pieceCount NewBoard \<le> 99" by code_simp
  with alpha_beta_equals_minimax[OF this, where sch = "\<lambda>p k. 0" and d = 3 and maximizing = True] show ?thesis by simp
qed

theorem sentinel_overrun_counterexample:
  "Minimax (\<lambda>p k. 0) 1 (- 999999) 999999 True crowded
     = Some (1013200, Some (Mv 0 1 0 0 False Empty False))
   \<and> fullMinimax (\<lambda>p k. 0) 1 True crowded = Some 1031200"
proof -
  have "Minimax (\<lambda>p k. 0) 1 (- 999999) 999999 True crowded
     = Some (1013200, Some (Mv 0 1 0 0 False Empty False))"
    by code_simp
  moreover have "fullMinimax (\<lambda>p k. 0) 1 True crowded = Some 1031200"
    by code_simp
  ultimately show ?thesis by simp
qed

section \<open>The candidate loop: first best move, cut-off\<close>

lemma fold_max_ge_init: "(me::int) \<le> fold max es me"
proof (induction es arbitrary: me)
  case Nil
  show ?case by simp
next
  case (Cons x es)
  have "me \<le> max x me" by simp
  also have "\<dots> \<le> fold max es (max x me)" by (rule Cons.IH)
  finally show ?case by simp
qed

lemma fold_max_ge_elem: "(e::int) \<in> set es \<Longrightarrow> e \<le> fold max es me"
proof (induction es arbitrary: me)
  case Nil
  then show ?case by simp
next
  case (Cons x es)
  show ?case
  proof (cases "e = x")
    case True
    have "x \<le> max x me" by simp
    also have "\<dots> \<le> fold max es (max x me)" by (rule fold_max_ge_init)
    finally show ?thesis using True by simp
  next
    case False
    with Cons.prems have "e \<in> set es" by simp
    from Cons.IH[OF this] show ?thesis by simp
  qed
qed

lemma fold_max_all_le: "\<forall>e\<in>set es. e \<le> (me::int) \<Longrightarrow> fold max es me = me"
  by (induction es arbitrary: me) (simp_all add: max_def)

lemma fold_min_le_init: "fold min es me \<le> (me::int)"
proof (induction es arbitrary: me)
  case Nil
  show ?case by simp
next
  case (Cons x es)
  have "fold min es (min x me) \<le> min x me" by (rule Cons.IH)
  also have "\<dots> \<le> me" by simp
  finally show ?case by simp
qed

lemma fold_min_le_elem: "(e::int) \<in> set es \<Longrightarrow> fold min es me \<le> e"
proof (induction es arbitrary: me)
  case Nil
  then show ?case by simp
next
  case (Cons x es)
  show ?case
  proof (cases "e = x")
    case True
    have "fold min es (min x me) \<le> min x me" by (rule fold_min_le_init)
    also have "\<dots> \<le> x" by simp
    finally show ?thesis using True by simp
  next
    case False
    with Cons.prems have "e \<in> set es" by simp
    from Cons.IH[OF this] show ?thesis by simp
  qed
qed

lemma fold_min_all_ge: "\<forall>e\<in>set es. (me::int) \<le> e \<Longrightarrow> fold min es me = me"
  by (induction es arbitrary: me) (simp_all add: min_absorb2)

lemma maxLoop_SomeD:
  assumes "maxLoop sch d b (m # ms) alpha beta me best = Some (v, bm)"
  shows "\<exists>nb e mv. MakeMove b m = Some nb
     \<and> Minimax (\<lambda>p. sch (m # p)) d alpha beta False nb = Some (e, mv)"
proof (cases "MakeMove b m")
  case None
  with assms show ?thesis by simp
next
  case (Some nb)
  show ?thesis
  proof (cases "Minimax (\<lambda>p. sch (m # p)) d alpha beta False nb")
    case None
    with assms Some show ?thesis by simp
  next
    case (Some a)
    obtain e mv where "a = (e, mv)" by (cases a)
    with Some \<open>MakeMove b m = Some nb\<close> show ?thesis by simp
  qed
qed

lemma minLoop_SomeD:
  assumes "minLoop sch d b (m # ms) alpha beta me best = Some (v, bm)"
  shows "\<exists>nb e mv. MakeMove b m = Some nb
     \<and> Minimax (\<lambda>p. sch (m # p)) d alpha beta True nb = Some (e, mv)"
proof (cases "MakeMove b m")
  case None
  with assms show ?thesis by simp
next
  case (Some nb)
  show ?thesis
  proof (cases "Minimax (\<lambda>p. sch (m # p)) d alpha beta True nb")
    case None
    with assms Some show ?thesis by simp
  next
    case (Some a)
    obtain e mv where "a = (e, mv)" by (cases a)
    with Some \<open>MakeMove b m = Some nb\<close> show ?thesis by simp
  qed
qed

lemma maxLoop_trace:
  assumes "maxLoop sch d b ms alpha beta me best = Some (v, bm)"
    and "E = examined sch d True b ms alpha beta"
  shows "map fst E = take (length E) ms
     \<and> v = fold max (map snd E) me
     \<and> ((\<forall>e\<in>set (map snd E). e \<le> me) \<longrightarrow> bm = best)
     \<and> ((\<exists>e\<in>set (map snd E). me < e) \<longrightarrow>
          (\<exists>i<length E. bm = Some (fst (E ! i)) \<and> snd (E ! i) = v \<and> (\<forall>j<i. snd (E ! j) < v)))
     \<and> (\<forall>n. 0 < n \<and> n < length E \<longrightarrow> \<not> windowClosed True alpha beta (map snd (take n E)))
     \<and> (length E < length ms \<longrightarrow> windowClosed True alpha beta (map snd E))"
  using assms
proof (induction ms arbitrary: alpha me best E)
  case Nil
  then show ?case by simp
next
  case (Cons m ms)
  from maxLoop_SomeD[OF Cons.prems(1)] obtain nb e mv0 where nb: "MakeMove b m = Some nb"
    and ch: "Minimax (\<lambda>p. sch (m # p)) d alpha beta False nb = Some (e, mv0)"
    by blast
  define me' where "me' = (if e > me then e else me)"
  define best' where "best' = (if e > me then Some m else best)"
  note step = maxLoop_step[OF nb ch, of ms me best, folded me'_def best'_def]
  have me'_max: "me' = max e me" by (simp add: me'_def max_def)
  show ?case
  proof (cases "beta \<le> max alpha e")
    case True
    with Cons.prems(2) nb ch have E: "E = [(m, e)]" by simp
    from Cons.prems(1) step True have r: "v = me'" "bm = best'" by simp_all
    have "windowClosed True alpha beta [e]"
      using True by (simp add: windowClosed_def max.commute)
    with r show ?thesis
      unfolding E by (simp add: me'_def best'_def max_def)
  next
    case False
    define E' where "E' = examined sch d True b ms (max alpha e) beta"
    from Cons.prems(2) nb ch False have E: "E = (m, e) # E'" by (simp add: E'_def)
    from Cons.prems(1) step False
    have loop: "maxLoop sch d b ms (max alpha e) beta me' best' = Some (v, bm)" by simp
    from Cons.IH[OF loop E'_def] have
      a: "map fst E' = take (length E') ms"
      and b: "v = fold max (map snd E') me'"
      and c: "(\<forall>x\<in>set (map snd E'). x \<le> me') \<longrightarrow> bm = best'"
      and d: "(\<exists>x\<in>set (map snd E'). me' < x) \<longrightarrow>
          (\<exists>i<length E'. bm = Some (fst (E' ! i)) \<and> snd (E' ! i) = v \<and> (\<forall>j<i. snd (E' ! j) < v))"
      and e: "\<forall>n. 0 < n \<and> n < length E' \<longrightarrow>
          \<not> windowClosed True (max alpha e) beta (map snd (take n E'))"
      and f: "length E' < length ms \<longrightarrow> windowClosed True (max alpha e) beta (map snd E')"
      by blast+
    have A: "map fst E = take (length E) (m # ms)"
      unfolding E using a by simp
    have B: "v = fold max (map snd E) me"
      unfolding E using b by (simp add: me'_max)
    have vge: "me' \<le> v" unfolding b by (rule fold_max_ge_init)
    have C: "(\<forall>x\<in>set (map snd E). x \<le> me) \<longrightarrow> bm = best"
    proof
      assume all: "\<forall>x\<in>set (map snd E). x \<le> me"
      then have "e \<le> me" unfolding E by simp
      then have "me' = me" "best' = best" by (simp_all add: me'_def best'_def)
      with all c show "bm = best" unfolding E by simp
    qed
    have D: "(\<exists>x\<in>set (map snd E). me < x) \<longrightarrow>
          (\<exists>i<length E. bm = Some (fst (E ! i)) \<and> snd (E ! i) = v \<and> (\<forall>j<i. snd (E ! j) < v))"
    proof
      assume ex: "\<exists>x\<in>set (map snd E). me < x"
      show "\<exists>i<length E. bm = Some (fst (E ! i)) \<and> snd (E ! i) = v \<and> (\<forall>j<i. snd (E ! j) < v)"
      proof (cases "\<exists>x\<in>set (map snd E'). me' < x")
        case True
        with d obtain i where i: "i < length E'" "bm = Some (fst (E' ! i))" "snd (E' ! i) = v"
          "\<forall>j<i. snd (E' ! j) < v"
          by blast
        from True obtain x where x: "x \<in> set (map snd E')" "me' < x" by blast
        from fold_max_ge_elem[OF x(1), of me'] b have "x \<le> v" by simp
        with x(2) have "e < v" by (simp add: me'_max)
        have "\<forall>j<Suc i. snd (E ! j) < v"
        proof (intro allI impI)
          fix j assume "j < Suc i"
          then show "snd (E ! j) < v"
            using i(4) \<open>e < v\<close> unfolding E by (cases j) simp_all
        qed
        with i(1,2,3) have "Suc i < length E \<and> bm = Some (fst (E ! Suc i)) \<and> snd (E ! Suc i) = v
            \<and> (\<forall>j<Suc i. snd (E ! j) < v)"
          unfolding E by simp
        then show ?thesis by blast
      next
        case False
        then have all: "\<forall>x\<in>set (map snd E'). x \<le> me'" by auto
        with c have bm: "bm = best'" by blast
        from fold_max_all_le[OF all] b have v: "v = me'" by simp
        from ex all have "me < e"
          unfolding E me'_def by (auto split: if_splits)
        with bm v have "bm = Some m" "v = e" by (simp_all add: me'_def best'_def)
        then have "0 < length E \<and> bm = Some (fst (E ! 0)) \<and> snd (E ! 0) = v
            \<and> (\<forall>j<0. snd (E ! j) < v)"
          unfolding E by simp
        then show ?thesis by blast
      qed
    qed
    have Ec: "\<forall>n. 0 < n \<and> n < length E \<longrightarrow> \<not> windowClosed True alpha beta (map snd (take n E))"
    proof (intro allI impI)
      fix n assume n: "0 < n \<and> n < length E"
      then obtain k where k: "n = Suc k" by (cases n) simp_all
      show "\<not> windowClosed True alpha beta (map snd (take n E))"
      proof (cases k)
        case 0
        with k False show ?thesis
          unfolding E by (simp add: windowClosed_def max.commute)
      next
        case (Suc k')
        with n k have "0 < k \<and> k < length E'" unfolding E by simp
        with e have "\<not> windowClosed True (max alpha e) beta (map snd (take k E'))" by blast
        then show ?thesis
          unfolding E k by (simp add: windowClosed_def max.commute)
      qed
    qed
    have F: "length E < length (m # ms) \<longrightarrow> windowClosed True alpha beta (map snd E)"
      using f unfolding E by (simp add: windowClosed_def max.commute)
    from A B C D Ec F show ?thesis by blast
  qed
qed

lemma minLoop_trace:
  assumes "minLoop sch d b ms alpha beta me best = Some (v, bm)"
    and "E = examined sch d False b ms alpha beta"
  shows "map fst E = take (length E) ms
     \<and> v = fold min (map snd E) me
     \<and> ((\<forall>e\<in>set (map snd E). me \<le> e) \<longrightarrow> bm = best)
     \<and> ((\<exists>e\<in>set (map snd E). e < me) \<longrightarrow>
          (\<exists>i<length E. bm = Some (fst (E ! i)) \<and> snd (E ! i) = v \<and> (\<forall>j<i. v < snd (E ! j))))
     \<and> (\<forall>n. 0 < n \<and> n < length E \<longrightarrow> \<not> windowClosed False alpha beta (map snd (take n E)))
     \<and> (length E < length ms \<longrightarrow> windowClosed False alpha beta (map snd E))"
  using assms
proof (induction ms arbitrary: beta me best E)
  case Nil
  then show ?case by simp
next
  case (Cons m ms)
  from minLoop_SomeD[OF Cons.prems(1)] obtain nb e mv0 where nb: "MakeMove b m = Some nb"
    and ch: "Minimax (\<lambda>p. sch (m # p)) d alpha beta True nb = Some (e, mv0)"
    by blast
  define me' where "me' = (if e < me then e else me)"
  define best' where "best' = (if e < me then Some m else best)"
  note step = minLoop_step[OF nb ch, of ms me best, folded me'_def best'_def]
  have me'_max: "me' = min e me" by (simp add: me'_def min_def)
  show ?case
  proof (cases "min beta e \<le> alpha")
    case True
    with Cons.prems(2) nb ch have E: "E = [(m, e)]" by simp
    from Cons.prems(1) step True have r: "v = me'" "bm = best'" by simp_all
    have "windowClosed False alpha beta [e]"
      using True by (simp add: windowClosed_def min.commute)
    with r show ?thesis
      unfolding E by (simp add: me'_def best'_def min_def)
  next
    case False
    define E' where "E' = examined sch d False b ms alpha (min beta e)"
    from Cons.prems(2) nb ch False have E: "E = (m, e) # E'" by (simp add: E'_def)
    from Cons.prems(1) step False
    have loop: "minLoop sch d b ms alpha (min beta e) me' best' = Some (v, bm)" by simp
    from Cons.IH[OF loop E'_def] have
      a: "map fst E' = take (length E') ms"
      and b: "v = fold min (map snd E') me'"
      and c: "(\<forall>x\<in>set (map snd E'). me' \<le> x) \<longrightarrow> bm = best'"
      and d: "(\<exists>x\<in>set (map snd E'). x < me') \<longrightarrow>
          (\<exists>i<length E'. bm = Some (fst (E' ! i)) \<and> snd (E' ! i) = v \<and> (\<forall>j<i. v < snd (E' ! j)))"
      and e: "\<forall>n. 0 < n \<and> n < length E' \<longrightarrow>
          \<not> windowClosed False alpha (min beta e) (map snd (take n E'))"
      and f: "length E' < length ms \<longrightarrow> windowClosed False alpha (min beta e) (map snd E')"
      by blast+
    have A: "map fst E = take (length E) (m # ms)"
      unfolding E using a by simp
    have B: "v = fold min (map snd E) me"
      unfolding E using b by (simp add: me'_max)
    have vge: "v \<le> me'" unfolding b by (rule fold_min_le_init)
    have C: "(\<forall>x\<in>set (map snd E). me \<le> x) \<longrightarrow> bm = best"
    proof
      assume all: "\<forall>x\<in>set (map snd E). me \<le> x"
      then have "me \<le> e" unfolding E by simp
      then have "me' = me" "best' = best" by (simp_all add: me'_def best'_def)
      with all c show "bm = best" unfolding E by simp
    qed
    have D: "(\<exists>x\<in>set (map snd E). x < me) \<longrightarrow>
          (\<exists>i<length E. bm = Some (fst (E ! i)) \<and> snd (E ! i) = v \<and> (\<forall>j<i. v < snd (E ! j)))"
    proof
      assume ex: "\<exists>x\<in>set (map snd E). x < me"
      show "\<exists>i<length E. bm = Some (fst (E ! i)) \<and> snd (E ! i) = v \<and> (\<forall>j<i. v < snd (E ! j))"
      proof (cases "\<exists>x\<in>set (map snd E'). x < me'")
        case True
        with d obtain i where i: "i < length E'" "bm = Some (fst (E' ! i))" "snd (E' ! i) = v"
          "\<forall>j<i. v < snd (E' ! j)"
          by blast
        from True obtain x where x: "x \<in> set (map snd E')" "x < me'" by blast
        from fold_min_le_elem[OF x(1), of me'] b have "v \<le> x" by simp
        with x(2) have "v < e" by (simp add: me'_max)
        have "\<forall>j<Suc i. v < snd (E ! j)"
        proof (intro allI impI)
          fix j assume "j < Suc i"
          then show "v < snd (E ! j)"
            using i(4) \<open>v < e\<close> unfolding E by (cases j) simp_all
        qed
        with i(1,2,3) have "Suc i < length E \<and> bm = Some (fst (E ! Suc i)) \<and> snd (E ! Suc i) = v
            \<and> (\<forall>j<Suc i. v < snd (E ! j))"
          unfolding E by simp
        then show ?thesis by blast
      next
        case False
        then have all: "\<forall>x\<in>set (map snd E'). me' \<le> x" by auto
        with c have bm: "bm = best'" by blast
        from fold_min_all_ge[OF all] b have v: "v = me'" by simp
        from ex all have "e < me"
          unfolding E me'_def by (auto split: if_splits)
        with bm v have "bm = Some m" "v = e" by (simp_all add: me'_def best'_def)
        then have "0 < length E \<and> bm = Some (fst (E ! 0)) \<and> snd (E ! 0) = v
            \<and> (\<forall>j<0. v < snd (E ! j))"
          unfolding E by simp
        then show ?thesis by blast
      qed
    qed
    have Ec: "\<forall>n. 0 < n \<and> n < length E \<longrightarrow> \<not> windowClosed False alpha beta (map snd (take n E))"
    proof (intro allI impI)
      fix n assume n: "0 < n \<and> n < length E"
      then obtain k where k: "n = Suc k" by (cases n) simp_all
      show "\<not> windowClosed False alpha beta (map snd (take n E))"
      proof (cases k)
        case 0
        with k False show ?thesis
          unfolding E by (simp add: windowClosed_def min.commute)
      next
        case (Suc k')
        with n k have "0 < k \<and> k < length E'" unfolding E by simp
        with e have "\<not> windowClosed False alpha (min beta e) (map snd (take k E'))" by blast
        then show ?thesis
          unfolding E k by (simp add: windowClosed_def min.commute)
      qed
    qed
    have F: "length E < length (m # ms) \<longrightarrow> windowClosed False alpha beta (map snd E)"
      using f unfolding E by (simp add: windowClosed_def min.commute)
    from A B C D Ec F show ?thesis by blast
  qed
qed

text \<open>
  C7. In the candidate loop of \<^verbatim>\<open>Minimax\<close> (a node that is not a leaf, with the moves
  \<open>moves\<close>), let \<open>E\<close> be the candidates examined, in order, with their child scores. Then
  \<open>E\<close> runs through an initial segment of \<open>moves\<close>; the returned score is the running
  maximum (minimum, when minimizing) of the scores, started at the sentinel; the returned
  move is the first examined candidate that has the returned score, every candidate
  examined before it being strictly worse, so a later candidate with an equal score
  never replaces it; no move is returned only if no score is strictly better than the
  sentinel; a further candidate is examined only while \<^verbatim>\<open>beta <= alpha\<close> is false; and
  when candidates are left unexamined, \<^verbatim>\<open>beta <= alpha\<close> held right after the last
  examined one.
\<close>

theorem Minimax_candidate_loop:
  assumes "\<not> fst (IsGameOver b)" and "GetAllLegalMoves (sch []) b = Some moves" and "moves \<noteq> []"
    and "Minimax sch (Suc d) alpha beta maximizing b = Some (v, bm)"
    and "E = examined sch d maximizing b moves alpha beta"
  shows "map fst E = take (length E) moves
     \<and> v = fold (if maximizing then max else min) (map snd E)
              (if maximizing then - 999999 else 999999)
     \<and> (\<forall>i<length E. \<not> better maximizing (snd (E ! i)) v)
     \<and> (bm = None \<longrightarrow>
          (\<forall>i<length E. \<not> better maximizing (snd (E ! i)) (if maximizing then - 999999 else 999999)))
     \<and> (\<forall>m. bm = Some m \<longrightarrow>
          (\<exists>i<length E. fst (E ! i) = m \<and> snd (E ! i) = v
             \<and> (\<forall>j<i. better maximizing v (snd (E ! j)))))
     \<and> (\<forall>n. 0 < n \<and> n < length E \<longrightarrow> \<not> windowClosed maximizing alpha beta (map snd (take n E)))
     \<and> (length E < length moves \<longrightarrow> windowClosed maximizing alpha beta (map snd E))"
proof (cases maximizing)
  case True
  from assms(1-4) True have loop: "maxLoop sch d b moves alpha beta (- 999999) None = Some (v, bm)"
    by simp
  from assms(5) True have E: "E = examined sch d True b moves alpha beta" by simp
  from maxLoop_trace[OF loop E] have
    a: "map fst E = take (length E) moves"
    and b: "v = fold max (map snd E) (- 999999)"
    and c: "(\<forall>e\<in>set (map snd E). e \<le> - 999999) \<longrightarrow> bm = None"
    and d: "(\<exists>e\<in>set (map snd E). - 999999 < e) \<longrightarrow>
          (\<exists>i<length E. bm = Some (fst (E ! i)) \<and> snd (E ! i) = v \<and> (\<forall>j<i. snd (E ! j) < v))"
    and e: "\<forall>n. 0 < n \<and> n < length E \<longrightarrow> \<not> windowClosed True alpha beta (map snd (take n E))"
    and f: "length E < length moves \<longrightarrow> windowClosed True alpha beta (map snd E)"
    by blast+
  have g: "\<forall>i<length E. \<not> better True (snd (E ! i)) v"
  proof (intro allI impI)
    fix i assume "i < length E"
    then have "snd (E ! i) \<in> set (map snd E)" by simp
    from fold_max_ge_elem[OF this, of "- 999999"] b
    show "\<not> better True (snd (E ! i)) v" by (simp add: better_def)
  qed
  have h: "bm = None \<longrightarrow> (\<forall>i<length E. \<not> better True (snd (E ! i)) (- 999999))"
  proof (intro allI impI)
    fix i assume bm: "bm = None" and i: "i < length E"
    show "\<not> better True (snd (E ! i)) (- 999999)"
    proof
      assume "better True (snd (E ! i)) (- 999999)"
      with i have "\<exists>e\<in>set (map snd E). - 999999 < e"
        by (auto simp: better_def)
      with d bm show False by auto
    qed
  qed
  have k: "\<forall>m. bm = Some m \<longrightarrow>
          (\<exists>i<length E. fst (E ! i) = m \<and> snd (E ! i) = v \<and> (\<forall>j<i. better True v (snd (E ! j))))"
  proof (intro allI impI)
    fix m assume bm: "bm = Some m"
    with c have "\<exists>e\<in>set (map snd E). - 999999 < e" by fastforce
    with d bm show "\<exists>i<length E. fst (E ! i) = m \<and> snd (E ! i) = v
        \<and> (\<forall>j<i. better True v (snd (E ! j)))"
      by (auto simp: better_def)
  qed
  from a b g h k e f True show ?thesis
    by simp
next
  case False
  from assms(1-4) False have loop: "minLoop sch d b moves alpha beta 999999 None = Some (v, bm)"
    by simp
  from assms(5) False have E: "E = examined sch d False b moves alpha beta" by simp
  from minLoop_trace[OF loop E] have
    a: "map fst E = take (length E) moves"
    and b: "v = fold min (map snd E) 999999"
    and c: "(\<forall>e\<in>set (map snd E). 999999 \<le> e) \<longrightarrow> bm = None"
    and d: "(\<exists>e\<in>set (map snd E). e < 999999) \<longrightarrow>
          (\<exists>i<length E. bm = Some (fst (E ! i)) \<and> snd (E ! i) = v \<and> (\<forall>j<i. v < snd (E ! j)))"
    and e: "\<forall>n. 0 < n \<and> n < length E \<longrightarrow> \<not> windowClosed False alpha beta (map snd (take n E))"
    and f: "length E < length moves \<longrightarrow> windowClosed False alpha beta (map snd E)"
    by blast+
  have g: "\<forall>i<length E. \<not> better False (snd (E ! i)) v"
  proof (intro allI impI)
    fix i assume "i < length E"
    then have "snd (E ! i) \<in> set (map snd E)" by simp
    from fold_min_le_elem[OF this, of 999999] b
    show "\<not> better False (snd (E ! i)) v" by (simp add: better_def)
  qed
  have h: "bm = None \<longrightarrow> (\<forall>i<length E. \<not> better False (snd (E ! i)) 999999)"
  proof (intro allI impI)
    fix i assume bm: "bm = None" and i: "i < length E"
    show "\<not> better False (snd (E ! i)) 999999"
    proof
      assume "better False (snd (E ! i)) 999999"
      with i have "\<exists>e\<in>set (map snd E). e < 999999"
        by (auto simp: better_def)
      with d bm show False by auto
    qed
  qed
  have k: "\<forall>m. bm = Some m \<longrightarrow>
          (\<exists>i<length E. fst (E ! i) = m \<and> snd (E ! i) = v \<and> (\<forall>j<i. better False v (snd (E ! j))))"
  proof (intro allI impI)
    fix m assume bm: "bm = Some m"
    with c have "\<exists>e\<in>set (map snd E). e < 999999" by fastforce
    with d bm show "\<exists>i<length E. fst (E ! i) = m \<and> snd (E ! i) = v
        \<and> (\<forall>j<i. better False v (snd (E ! j)))"
      by (auto simp: better_def)
  qed
  from a b g h k e f False show ?thesis
    by simp
qed

text \<open>Input for C7: the initial position searched two plies deep. The first candidate, the
  Pawn's advance, scores -180 and so does the second; the first is the move returned.\<close>

theorem Minimax_candidate_loop_witness:
  "\<not> fst (IsGameOver NewBoard)
   \<and> GetAllLegalMoves (\<lambda>k. 0) NewBoard = Some openingMoves
   \<and> Minimax (\<lambda>p k. 0) (Suc 1) (- 999999) 999999 True NewBoard
       = Some (- 180, Some (Mv 3 0 2 0 False Empty False))
   \<and> snd (examined (\<lambda>p k. 0) 1 True NewBoard openingMoves (- 999999) 999999 ! 1) = - 180
   \<and> (\<exists>i<length (examined (\<lambda>p k. 0) 1 True NewBoard openingMoves (- 999999) 999999).
         fst (examined (\<lambda>p k. 0) 1 True NewBoard openingMoves (- 999999) 999999 ! i)
           = Mv 3 0 2 0 False Empty False
         \<and> snd (examined (\<lambda>p k. 0) 1 True NewBoard openingMoves (- 999999) 999999 ! i) = - 180
         \<and> (\<forall>j<i. better True (- 180)
               (snd (examined (\<lambda>p k. 0) 1 True NewBoard openingMoves (- 999999) 999999 ! j))))"
proof -
  have h1: "\<not> fst (IsGameOver NewBoard)" by code_simp
  have h2: "GetAllLegalMoves ((\<lambda>p k. 0) []) NewBoard = Some openingMoves" by code_simp
  have h3: "openingMoves \<noteq> []" by (simp add: openingMoves_def)
  have h4: "Minimax (\<lambda>p k. 0) (Suc 1) (- 999999) 999999 True NewBoard
       = Some (- 180, Some (Mv 3 0 2 0 False Empty False))" by code_simp
  have h5: "snd (examined (\<lambda>p k. 0) 1 True NewBoard openingMoves (- 999999) 999999 ! 1) = - 180"
    by code_simp
  from Minimax_candidate_loop[OF h1 h2 h3 h4 refl] h1 h2 h4 h5
  show ?thesis by simp
qed

subsection \<open>Every destination of a promotable kind is generated\<close>

lemma silverMoves_produce:
  assumes "d \<in> set dirs" and "isValidMove b row col (row + fst d) (col + snd d)"
  shows "Mv row col (row + fst d) (col + snd d) False Empty False
           \<in> set (silverMoves b piece row col dirs)"
    and "canPromote (Owner piece) (row + fst d) \<Longrightarrow>
         Mv row col (row + fst d) (col + snd d) False Empty True
           \<in> set (silverMoves b piece row col dirs)"
proof -
  let ?f = "\<lambda>d. let nr = row + fst d; nc = col + snd d in
                       if isValidMove b row col nr nc then
                         (if canPromote (Owner piece) nr then [Mv row col nr nc False Empty True] else [])
                         @ [Mv row col nr nc False Empty False]
                       else []"
  have s: "set (silverMoves b piece row col dirs) = (\<Union>d\<in>set dirs. set (?f d))"
    unfolding silverMoves_def by simp
  have "Mv row col (row + fst d) (col + snd d) False Empty False \<in> set (?f d)"
    using assms(2) by (simp add: Let_def)
  with assms(1) show "Mv row col (row + fst d) (col + snd d) False Empty False
           \<in> set (silverMoves b piece row col dirs)"
    unfolding s by blast
  assume "canPromote (Owner piece) (row + fst d)"
  with assms(2) have "Mv row col (row + fst d) (col + snd d) False Empty True \<in> set (?f d)"
    by (simp add: Let_def)
  with assms(1) show "Mv row col (row + fst d) (col + snd d) False Empty True
           \<in> set (silverMoves b piece row col dirs)"
    unfolding s by blast
qed

lemma pawnMoves_produce:
  assumes "isValidMove b row col (row + (if Owner piece = Second then 1 else - 1)) col"
  shows "Mv row col (row + (if Owner piece = Second then 1 else - 1)) col False Empty False
           \<in> set (pawnMoves b piece row col)"
    and "canPromote (Owner piece) (row + (if Owner piece = Second then 1 else - 1)) \<Longrightarrow>
         Mv row col (row + (if Owner piece = Second then 1 else - 1)) col False Empty True
           \<in> set (pawnMoves b piece row col)"
  using assms unfolding pawnMoves_unfold by simp_all

text \<open>A slide reaches the step \<open>i\<close> of its range when every earlier step of the range is an
  empty cell of the board.\<close>

lemma slide_produce:
  assumes "i \<in> set js"
    and "\<forall>j\<in>set (takeWhile (\<lambda>j. j \<noteq> i) js).
           isInBoard (row + fst d * j) (col + snd d * j)
           \<and> Owner (cell b (row + fst d * j) (col + snd d * j)) = NoneP"
    and "isInBoard (row + fst d * i) (col + snd d * i)"
    and "Owner (cell b (row + fst d * i) (col + snd d * i)) \<noteq> Owner piece"
    and "Owner piece \<noteq> NoneP"
  shows "Mv row col (row + fst d * i) (col + snd d * i) False Empty False
           \<in> set (slide b piece pk row col d js)
       \<and> (Type piece = pk \<and> canPromote (Owner piece) (row + fst d * i) \<longrightarrow>
           Mv row col (row + fst d * i) (col + snd d * i) False Empty True
             \<in> set (slide b piece pk row col d js))"
  using assms(1,2)
proof (induction js)
  case Nil
  then show ?case by simp
next
  case (Cons j js)
  show ?case
  proof (cases "j = i")
    case True
    with assms(3,4) show ?thesis by (simp add: Let_def)
  next
    case False
    with Cons.prems have i: "i \<in> set js"
      and e: "isInBoard (row + fst d * j) (col + snd d * j)"
             "Owner (cell b (row + fst d * j) (col + snd d * j)) = NoneP"
      and r: "\<forall>j\<in>set (takeWhile (\<lambda>j. j \<noteq> i) js).
           isInBoard (row + fst d * j) (col + snd d * j)
           \<and> Owner (cell b (row + fst d * j) (col + snd d * j)) = NoneP"
      by simp_all
    from Cons.IH[OF i r] e assms(5) show ?thesis
      by (simp add: Let_def)
  qed
qed

lemma between_inBoard:
  assumes "isInBoard row col" and "isInBoard (row + dr * i) (col + dc * i)"
    and "1 \<le> j" and "j < i"
  shows "isInBoard (row + dr * j) (col + dc * j)"
proof -
  have k: "0 \<le> x + e * j \<and> x + e * j < 5"
    if x: "0 \<le> x" "x < 5" and y: "0 \<le> x + e * i" "x + e * i < 5" for x e :: int
  proof (cases "0 \<le> e")
    case True
    then have "0 \<le> e * j" "e * j \<le> e * i"
      using assms(3,4) by (simp_all add: mult_left_mono)
    with x y show ?thesis by linarith
  next
    case False
    then have "e * j \<le> 0" "e * i \<le> e * j"
      using assms(3,4) by (simp_all add: mult_nonpos_nonneg mult_left_mono_neg)
    with x y show ?thesis by linarith
  qed
  from assms(1,2) k[of row dr] k[of col dc] show ?thesis
    by (simp add: isInBoard_def)
qed

lemma range_before:
  fixes i :: int
  assumes "i = 1 \<or> i = 2 \<or> i = 3 \<or> i = 4"
  shows "set (takeWhile (\<lambda>j. j \<noteq> i) [1, 2, 3, 4]) \<subseteq> {1..<i}"
  using assms by (elim disjE) simp_all

lemma slideMoves_produce:
  assumes "slidesTo b row col (set dirs) nr nc"
    and "isInBoard row col" and "isInBoard nr nc"
    and "Owner (cell b nr nc) \<noteq> Owner piece" and "Owner piece \<noteq> NoneP"
  shows "Mv row col nr nc False Empty False \<in> set (slideMoves b piece pk row col dirs)
       \<and> (Type piece = pk \<and> canPromote (Owner piece) nr \<longrightarrow>
           Mv row col nr nc False Empty True \<in> set (slideMoves b piece pk row col dirs))"
proof -
  from assms(1) obtain dr dc i where d: "(dr, dc) \<in> set dirs" and i: "1 \<le> i" "i \<le> 4"
    and n: "nr = row + dr * i" "nc = col + dc * i" and c: "clearLine b row col dr dc i"
    unfolding slidesTo_def by auto
  from i have ic: "i = 1 \<or> i = 2 \<or> i = 3 \<or> i = 4" by arith
  have mem: "i \<in> set [1, 2, 3, 4]" using ic by (elim disjE) simp_all
  note tw = range_before[OF ic]
  have pre: "\<forall>j\<in>set (takeWhile (\<lambda>j. j \<noteq> i) [1, 2, 3, 4]).
           isInBoard (row + fst (dr, dc) * j) (col + snd (dr, dc) * j)
           \<and> Owner (cell b (row + fst (dr, dc) * j) (col + snd (dr, dc) * j)) = NoneP"
  proof
    fix j assume "j \<in> set (takeWhile (\<lambda>j. j \<noteq> i) [1, 2, 3, 4])"
    from subsetD[OF tw this] have j: "1 \<le> j" "j < i" by simp_all
    from c j have "Owner (cell b (row + dr * j) (col + dc * j)) = NoneP"
      unfolding clearLine_def by simp
    moreover have "isInBoard (row + dr * j) (col + dc * j)"
      using between_inBoard[OF assms(2) _ j] assms(3) n by simp
    ultimately show "isInBoard (row + fst (dr, dc) * j) (col + snd (dr, dc) * j)
           \<and> Owner (cell b (row + fst (dr, dc) * j) (col + snd (dr, dc) * j)) = NoneP"
      by simp
  qed
  have "Mv row col nr nc False Empty False \<in> set (slide b piece pk row col (dr, dc) [1, 2, 3, 4])
       \<and> (Type piece = pk \<and> canPromote (Owner piece) nr \<longrightarrow>
           Mv row col nr nc False Empty True \<in> set (slide b piece pk row col (dr, dc) [1, 2, 3, 4]))"
    using slide_produce[where d = "(dr, dc)" and i = i and js = "[1, 2, 3, 4]" and b = b
        and row = row and col = col and piece = piece and pk = pk, OF mem pre]
      assms(3,4,5) n by simp
  moreover have "set (slide b piece pk row col (dr, dc) [1, 2, 3, 4])
      \<subseteq> set (slideMoves b piece pk row col dirs)"
    using d unfolding slideMoves_def by auto
  ultimately show ?thesis by blast
qed

lemma silverStep_dirs:
  "p \<noteq> NoneP \<Longrightarrow> silverStep p dr dc \<longleftrightarrow> (dr, dc) \<in> set (getSilverMoves p)"
  by (cases p) (auto simp: silverStep_def forward_def getSilverMoves_def)

lemma reaches_produce:
  assumes g: "GetPossibleMoves b row col = Some ms"
    and o: "Owner (cell b row col) = CurrentTurn b" "CurrentTurn b \<noteq> NoneP"
    and r: "reaches b row col nr nc"
  shows "Mv row col nr nc False Empty False \<in> set ms
       \<and> (promotionZone (Owner (cell b row col)) nr \<longrightarrow> Mv row col nr nc False Empty True \<in> set ms)"
proof -
  let ?p = "cell b row col"
  from o have p: "Owner ?p \<noteq> NoneP" by simp
  note z = canPromote_zone[OF p]
  from g have ib: "isInBoard row col"
    by (simp add: GetPossibleMoves_def split: if_splits)
  from r have nb: "isInBoard nr nc" and no: "Owner (cell b nr nc) \<noteq> Owner ?p"
    unfolding reaches_def by simp_all
  then have v: "isValidMove b row col nr nc"
    by (simp add: isValidMove_def)
  from g ib o p have ms: "ms = (case Type ?p of
            King \<Rightarrow> stepMoves b row col
                      [(-1, -1), (-1, 0), (-1, 1), (0, -1), (0, 1), (1, -1), (1, 0), (1, 1)]
          | Gold \<Rightarrow> stepMoves b row col (getGoldMoves (Owner ?p))
          | PromotedSilver \<Rightarrow> stepMoves b row col (getGoldMoves (Owner ?p))
          | PromotedPawn \<Rightarrow> stepMoves b row col (getGoldMoves (Owner ?p))
          | Silver \<Rightarrow> silverMoves b ?p row col (getSilverMoves (Owner ?p))
          | Bishop \<Rightarrow> slideMoves b ?p Bishop row col diagDirs
          | PromotedBishop \<Rightarrow>
              slideMoves b ?p Bishop row col diagDirs
              @ stepMoves b row col [(-1, 0), (0, -1), (0, 1), (1, 0)]
          | Rook \<Rightarrow> slideMoves b ?p Rook row col [(-1, 0), (1, 0), (0, -1), (0, 1)]
          | PromotedRook \<Rightarrow>
              slideMoves b ?p Rook row col [(-1, 0), (1, 0), (0, -1), (0, 1)]
              @ stepMoves b row col diagDirs
          | Pawn \<Rightarrow> pawnMoves b ?p row col
          | Empty \<Rightarrow> [])"
    unfolding GetPossibleMoves_def Let_def by simp
  show ?thesis
  proof (cases "Type ?p")
    case Silver
    with r have "silverStep (Owner ?p) (nr - row) (nc - col)"
      unfolding reaches_def by simp
    then have d: "(nr - row, nc - col) \<in> set (getSilverMoves (Owner ?p))"
      using silverStep_dirs[OF p] by simp
    from silverMoves_produce[OF d, of b row col ?p] v
    show ?thesis unfolding z by (simp add: ms Silver)
  next
    case Pawn
    with r have n: "nr = row + forward (Owner ?p)" "nc = col"
      unfolding reaches_def by simp_all
    from p have f: "forward (Owner ?p) = (if Owner ?p = Second then 1 else - 1)"
      by (cases "Owner ?p") (simp_all add: forward_def)
    from pawnMoves_produce[of b row col ?p] v
    show ?thesis unfolding z n f by (simp add: ms Pawn)
  next
    case Bishop
    with r have s: "slidesTo b row col (set diagDirs) nr nc"
      unfolding reaches_def by (simp add: diagDirs_def insert_commute)
    from slideMoves_produce[OF s ib nb no p, of Bishop]
    show ?thesis unfolding z by (simp add: ms Bishop)
  next
    case Rook
    with r have s: "slidesTo b row col (set [(-1, 0), (1, 0), (0, -1), (0, 1)]) nr nc"
      unfolding reaches_def by (simp add: insert_commute)
    from slideMoves_produce[OF s ib nb no p, of Rook]
    show ?thesis unfolding z by (simp add: ms Rook)
  qed (use r in \<open>simp_all add: reaches_def\<close>)
qed

text \<open>
  C4. Let \<open>GetPossibleMoves\<close> return the list \<open>ms\<close> for the piece on \<open>(row, col)\<close>. Whenever
  that piece is a Silver, Bishop, Rook or Pawn of the side to move and \<open>(nr, nc)\<close> is one of
  its destinations (\<open>reaches\<close>), \<open>ms\<close> holds the non-promoting move to \<open>(nr, nc)\<close>, and it
  holds the promoting move to \<open>(nr, nc)\<close> exactly when row \<open>nr\<close> is in the mover's promotion
  zone (row \<open>\<le> 0\<close> for First, row \<open>\<ge> 4\<close> for Second). Conversely, every move \<open>m\<close> of \<open>ms\<close>
  made by one of these four kinds comes with both variants when its destination row is in
  the zone and does not promote when it is outside, and no move of a King, a Gold or a
  promoted kind has \<open>Promote\<close> set.
\<close>

theorem GetPossibleMoves_promotion_variants:
  assumes "GetPossibleMoves b row col = Some ms"
  shows "(\<forall>nr nc. Owner (cell b row col) = CurrentTurn b \<and> CurrentTurn b \<noteq> NoneP
            \<and> reaches b row col nr nc \<longrightarrow>
              Mv row col nr nc False Empty False \<in> set ms
              \<and> (Mv row col nr nc False Empty True \<in> set ms
                   \<longleftrightarrow> promotionZone (Owner (cell b row col)) nr))
       \<and> (\<forall>m\<in>set ms.
            (Type (cell b row col) \<in> {Silver, Bishop, Rook, Pawn}
               \<and> promotionZone (Owner (cell b row col)) (ToRow m) \<longrightarrow>
                 m\<lparr>Promote := True\<rparr> \<in> set ms \<and> m\<lparr>Promote := False\<rparr> \<in> set ms)
          \<and> (Type (cell b row col) \<in> {Silver, Bishop, Rook, Pawn}
               \<and> \<not> promotionZone (Owner (cell b row col)) (ToRow m) \<longrightarrow> \<not> Promote m)
          \<and> (Type (cell b row col) \<notin> {Silver, Bishop, Rook, Pawn} \<longrightarrow> \<not> Promote m))"
proof (rule conjI)
  show "\<forall>nr nc. Owner (cell b row col) = CurrentTurn b \<and> CurrentTurn b \<noteq> NoneP
            \<and> reaches b row col nr nc \<longrightarrow>
              Mv row col nr nc False Empty False \<in> set ms
              \<and> (Mv row col nr nc False Empty True \<in> set ms
                   \<longleftrightarrow> promotionZone (Owner (cell b row col)) nr)"
  proof (intro allI impI)
    fix nr nc
    assume a: "Owner (cell b row col) = CurrentTurn b \<and> CurrentTurn b \<noteq> NoneP
              \<and> reaches b row col nr nc"
    then have o: "Owner (cell b row col) = CurrentTurn b" "CurrentTurn b \<noteq> NoneP"
      and r: "reaches b row col nr nc" by simp_all
    note p = reaches_produce[OF assms o r]
    have "Mv row col nr nc False Empty True \<in> set ms
            \<longleftrightarrow> promotionZone (Owner (cell b row col)) nr"
    proof
      assume t: "Mv row col nr nc False Empty True \<in> set ms"
      from r have k: "Type (cell b row col) \<in> {Silver, Bishop, Rook, Pawn}"
        unfolding reaches_def by (cases "Type (cell b row col)") simp_all
      show "promotionZone (Owner (cell b row col)) nr"
      proof (rule ccontr)
        assume "\<not> promotionZone (Owner (cell b row col)) nr"
        with promotion_variants_closure[OF assms t] k show False by simp
      qed
    next
      assume "promotionZone (Owner (cell b row col)) nr"
      with p show "Mv row col nr nc False Empty True \<in> set ms" by simp
    qed
    with p show "Mv row col nr nc False Empty False \<in> set ms
              \<and> (Mv row col nr nc False Empty True \<in> set ms
                   \<longleftrightarrow> promotionZone (Owner (cell b row col)) nr)"
      by simp
  qed
  show "\<forall>m\<in>set ms.
            (Type (cell b row col) \<in> {Silver, Bishop, Rook, Pawn}
               \<and> promotionZone (Owner (cell b row col)) (ToRow m) \<longrightarrow>
                 m\<lparr>Promote := True\<rparr> \<in> set ms \<and> m\<lparr>Promote := False\<rparr> \<in> set ms)
          \<and> (Type (cell b row col) \<in> {Silver, Bishop, Rook, Pawn}
               \<and> \<not> promotionZone (Owner (cell b row col)) (ToRow m) \<longrightarrow> \<not> Promote m)
          \<and> (Type (cell b row col) \<notin> {Silver, Bishop, Rook, Pawn} \<longrightarrow> \<not> Promote m)"
  proof (rule ballI)
    fix m assume "m \<in> set ms"
    from promotion_variants_closure[OF assms this]
    show "(Type (cell b row col) \<in> {Silver, Bishop, Rook, Pawn}
               \<and> promotionZone (Owner (cell b row col)) (ToRow m) \<longrightarrow>
                 m\<lparr>Promote := True\<rparr> \<in> set ms \<and> m\<lparr>Promote := False\<rparr> \<in> set ms)
          \<and> (Type (cell b row col) \<in> {Silver, Bishop, Rook, Pawn}
               \<and> \<not> promotionZone (Owner (cell b row col)) (ToRow m) \<longrightarrow> \<not> Promote m)
          \<and> (Type (cell b row col) \<notin> {Silver, Bishop, Rook, Pawn} \<longrightarrow> \<not> Promote m)" .
  qed
qed

text \<open>Inputs for C4. A Silver of First on \<open>(1, 1)\<close> takes the Rook on \<open>(0, 0)\<close>, in the zone,
  with and without promotion, and steps back to \<open>(2, 0)\<close> without. A Rook of First on
  \<open>(2, 0)\<close> slides over the empty \<open>(1, 0)\<close>, where it cannot promote, onto \<open>(0, 0)\<close>, where it
  can. A Pawn of First on \<open>(1, 0)\<close> steps onto \<open>(0, 0)\<close>.\<close>

theorem GetPossibleMoves_promotion_variants_witness:
  "GetPossibleMoves silverAtGate 1 1
     = Some [Mv 1 1 0 0 False Empty True, Mv 1 1 0 0 False Empty False,
             Mv 1 1 0 1 False Empty True, Mv 1 1 0 1 False Empty False,
             Mv 1 1 0 2 False Empty True, Mv 1 1 0 2 False Empty False,
             Mv 1 1 2 0 False Empty False, Mv 1 1 2 2 False Empty False]
   \<and> reaches silverAtGate 1 1 0 0 \<and> promotionZone (Owner (cell silverAtGate 1 1)) 0
   \<and> Mv 1 1 0 0 False Empty False \<in> set (the (GetPossibleMoves silverAtGate 1 1))
   \<and> Mv 1 1 0 0 False Empty True \<in> set (the (GetPossibleMoves silverAtGate 1 1))
   \<and> reaches silverAtGate 1 1 2 0 \<and> \<not> promotionZone (Owner (cell silverAtGate 1 1)) 2
   \<and> Mv 1 1 2 0 False Empty False \<in> set (the (GetPossibleMoves silverAtGate 1 1))
   \<and> Mv 1 1 2 0 False Empty True \<notin> set (the (GetPossibleMoves silverAtGate 1 1))
   \<and> Type (cell silverAtGate 1 1) = Silver
   \<and> (Mv 1 1 0 1 False Empty False)\<lparr>Promote := True\<rparr>
        \<in> set (the (GetPossibleMoves silverAtGate 1 1))
   \<and> GetPossibleMoves rookOnFile 2 0
     = Some [Mv 2 0 1 0 False Empty False,
             Mv 2 0 0 0 False Empty True, Mv 2 0 0 0 False Empty False,
             Mv 2 0 2 1 False Empty False, Mv 2 0 2 2 False Empty False,
             Mv 2 0 2 3 False Empty False, Mv 2 0 2 4 False Empty False]
   \<and> reaches rookOnFile 2 0 0 0 \<and> promotionZone (Owner (cell rookOnFile 2 0)) 0
   \<and> Mv 2 0 0 0 False Empty False \<in> set (the (GetPossibleMoves rookOnFile 2 0))
   \<and> Mv 2 0 0 0 False Empty True \<in> set (the (GetPossibleMoves rookOnFile 2 0))
   \<and> GetPossibleMoves pawnAtGate 1 0
     = Some [Mv 1 0 0 0 False Empty True, Mv 1 0 0 0 False Empty False]
   \<and> reaches pawnAtGate 1 0 0 0 \<and> promotionZone (Owner (cell pawnAtGate 1 0)) 0
   \<and> Mv 1 0 0 0 False Empty False \<in> set (the (GetPossibleMoves pawnAtGate 1 0))
   \<and> Mv 1 0 0 0 False Empty True \<in> set (the (GetPossibleMoves pawnAtGate 1 0))"
proof -
  have gs: "GetPossibleMoves silverAtGate 1 1
     = Some [Mv 1 1 0 0 False Empty True, Mv 1 1 0 0 False Empty False,
             Mv 1 1 0 1 False Empty True, Mv 1 1 0 1 False Empty False,
             Mv 1 1 0 2 False Empty True, Mv 1 1 0 2 False Empty False,
             Mv 1 1 2 0 False Empty False, Mv 1 1 2 2 False Empty False]"
    by code_simp
  have os: "Owner (cell silverAtGate 1 1) = CurrentTurn silverAtGate"
    "CurrentTurn silverAtGate \<noteq> NoneP"
    by code_simp+
  have rs: "reaches silverAtGate 1 1 0 0" "reaches silverAtGate 1 1 2 0"
    by code_simp+
  have zs: "promotionZone (Owner (cell silverAtGate 1 1)) 0"
    "\<not> promotionZone (Owner (cell silverAtGate 1 1)) 2"
    by code_simp+
  have gr: "GetPossibleMoves rookOnFile 2 0
     = Some [Mv 2 0 1 0 False Empty False,
             Mv 2 0 0 0 False Empty True, Mv 2 0 0 0 False Empty False,
             Mv 2 0 2 1 False Empty False, Mv 2 0 2 2 False Empty False,
             Mv 2 0 2 3 False Empty False, Mv 2 0 2 4 False Empty False]"
    by code_simp
  have or: "Owner (cell rookOnFile 2 0) = CurrentTurn rookOnFile"
    "CurrentTurn rookOnFile \<noteq> NoneP"
    by code_simp+
  have rr: "reaches rookOnFile 2 0 0 0"
    by code_simp
  have zr: "promotionZone (Owner (cell rookOnFile 2 0)) 0"
    by code_simp
  have gp: "GetPossibleMoves pawnAtGate 1 0
     = Some [Mv 1 0 0 0 False Empty True, Mv 1 0 0 0 False Empty False]"
    by code_simp
  have op: "Owner (cell pawnAtGate 1 0) = CurrentTurn pawnAtGate"
    "CurrentTurn pawnAtGate \<noteq> NoneP"
    by code_simp+
  have rp: "reaches pawnAtGate 1 0 0 0"
    by code_simp
  have zp: "promotionZone (Owner (cell pawnAtGate 1 0)) 0"
    by code_simp
  note s1 = GetPossibleMoves_promotion_variants[OF gs, THEN conjunct1, THEN spec, THEN spec,
      THEN mp, OF conjI[OF os(1) conjI[OF os(2) rs(1)]]]
  note s2 = GetPossibleMoves_promotion_variants[OF gs, THEN conjunct1, THEN spec, THEN spec,
      THEN mp, OF conjI[OF os(1) conjI[OF os(2) rs(2)]]]
  note r1 = GetPossibleMoves_promotion_variants[OF gr, THEN conjunct1, THEN spec, THEN spec,
      THEN mp, OF conjI[OF or(1) conjI[OF or(2) rr]]]
  note p1 = GetPossibleMoves_promotion_variants[OF gp, THEN conjunct1, THEN spec, THEN spec,
      THEN mp, OF conjI[OF op(1) conjI[OF op(2) rp]]]
  from s1 zs(1) have a: "Mv 1 1 0 0 False Empty False \<in> set (the (GetPossibleMoves silverAtGate 1 1))"
    "Mv 1 1 0 0 False Empty True \<in> set (the (GetPossibleMoves silverAtGate 1 1))"
    unfolding gs by simp_all
  from s2 zs(2) have b: "Mv 1 1 2 0 False Empty False \<in> set (the (GetPossibleMoves silverAtGate 1 1))"
    "Mv 1 1 2 0 False Empty True \<notin> set (the (GetPossibleMoves silverAtGate 1 1))"
    unfolding gs by simp_all
  from r1 zr have c: "Mv 2 0 0 0 False Empty False \<in> set (the (GetPossibleMoves rookOnFile 2 0))"
    "Mv 2 0 0 0 False Empty True \<in> set (the (GetPossibleMoves rookOnFile 2 0))"
    unfolding gr by simp_all
  from p1 zp have d: "Mv 1 0 0 0 False Empty False \<in> set (the (GetPossibleMoves pawnAtGate 1 0))"
    "Mv 1 0 0 0 False Empty True \<in> set (the (GetPossibleMoves pawnAtGate 1 0))"
    unfolding gp by simp_all
  have ts: "Type (cell silverAtGate 1 1) = Silver"
    by code_simp
  have "Mv 1 1 0 1 False Empty False
      \<in> set [Mv 1 1 0 0 False Empty True, Mv 1 1 0 0 False Empty False,
             Mv 1 1 0 1 False Empty True, Mv 1 1 0 1 False Empty False,
             Mv 1 1 0 2 False Empty True, Mv 1 1 0 2 False Empty False,
             Mv 1 1 2 0 False Empty False, Mv 1 1 2 2 False Empty False]"
    by simp
  from GetPossibleMoves_promotion_variants[OF gs, THEN conjunct2, THEN bspec, OF this] ts zs(1)
  have e: "(Mv 1 1 0 1 False Empty False)\<lparr>Promote := True\<rparr>
        \<in> set (the (GetPossibleMoves silverAtGate 1 1))"
    unfolding gs by simp
  show ?thesis
    by (intro conjI gs gr gp rs rr rp zs zr zp a b c d e ts)
qed

section \<open>Positions reached by a line of play\<close>

lemma playLegal_reachable:
  "reachable b \<Longrightarrow> playLegal b ms = Some b' \<Longrightarrow> reachable b'"
proof (induction ms arbitrary: b)
  case Nil
  then show ?case by simp
next
  case (Cons m ms)
  from Cons.prems(2) have l: "legalNow b m"
    by (simp split: if_splits)
  then obtain lm where lm: "GetAllLegalMoves (\<lambda>k. 0) b = Some lm" and m: "m \<in> set lm"
    unfolding legalNow_def by (auto split: option.splits)
  from Cons.prems(2) l obtain b1 where b1: "MakeMove b m = Some b1"
    and r: "playLegal b1 ms = Some b'"
    by (simp split: option.splits)
  from reachable.step[OF Cons.prems(1) lm m b1] have "reachable b1" .
  from Cons.IH[OF this r] show ?case .
qed

lemma playLegal_rookLine: "playLegal NewBoard rookLine = Some rookCheck"
  by code_simp

lemma reachable_rookCheck: "reachable rookCheck"
  using playLegal_reachable[OF reachable.init playLegal_rookLine] .

text \<open>Input for C10: the state \<open>rookCheck\<close>, reached in six legal plies, where both Kings are
  on the board and First, to move, holds a Pawn and a Silver: 31 drops, among them the
  Silver and the Pawn on \<open>(3, 0)\<close>, and none of a King.\<close>

theorem no_King_drop_witness:
  "reachable rookCheck \<and> \<not> fst (IsGameOver rookCheck)
   \<and> moverHand rookCheck = [Pawn, Silver]
   \<and> length (GetDropMoves (\<lambda>k. 0) rookCheck) = 31
   \<and> Mv (- 1) (- 1) 3 0 True Silver False \<in> set (GetDropMoves (\<lambda>k. 0) rookCheck)
   \<and> Mv (- 1) (- 1) 3 0 True Pawn False \<in> set (GetDropMoves (\<lambda>k. 0) rookCheck)
   \<and> King \<notin> set (map DropPiece (GetDropMoves (\<lambda>k. 0) rookCheck))"
proof -
  have g: "\<not> fst (IsGameOver rookCheck)" by code_simp
  have h: "moverHand rookCheck = [Pawn, Silver]" by code_simp
  have n: "length (GetDropMoves (\<lambda>k. 0) rookCheck) = 31" by code_simp
  have s: "Mv (- 1) (- 1) 3 0 True Silver False \<in> set (GetDropMoves (\<lambda>k. 0) rookCheck)"
    by code_simp
  have p: "Mv (- 1) (- 1) 3 0 True Pawn False \<in> set (GetDropMoves (\<lambda>k. 0) rookCheck)"
    by code_simp
  from no_King_drop[OF reachable_rookCheck g, of "\<lambda>k. 0"]
  have "King \<notin> set (map DropPiece (GetDropMoves (\<lambda>k. 0) rookCheck))"
    by auto
  with reachable_rookCheck g h n s p show ?thesis by simp
qed

section \<open>The iteration order of the hand's kinds\<close>

text \<open>Every enumeration of the kinds of a hand is the order of some ranking: the model
  leaves out no order that the Go runtime may take.\<close>

lemma position_ranks:
  "distinct (pre @ ks) \<Longrightarrow>
     map (\<lambda>k. length (takeWhile (\<lambda>x. x \<noteq> k) (pre @ ks))) ks
       = [length pre ..< length pre + length ks]"
proof (induction ks arbitrary: pre)
  case Nil
  then show ?case by simp
next
  case (Cons k ks)
  from Cons.prems have k: "k \<notin> set pre" and d: "distinct ((pre @ [k]) @ ks)"
    by simp_all
  have "takeWhile (\<lambda>x. x \<noteq> k) (pre @ k # ks) = pre @ takeWhile (\<lambda>x. x \<noteq> k) (k # ks)"
    by (rule takeWhile_append2) (use k in auto)
  then have h: "takeWhile (\<lambda>x. x \<noteq> k) (pre @ k # ks) = pre"
    by simp
  from Cons.IH[OF d]
  have t: "map (\<lambda>j. length (takeWhile (\<lambda>x. x \<noteq> j) (pre @ k # ks))) ks
      = [Suc (length pre) ..< Suc (length pre) + length ks]"
    by simp
  have u: "[length pre ..< length pre + length (k # ks)]
      = length pre # [Suc (length pre) ..< Suc (length pre) + length ks]"
    by (subst upt_rec) simp
  show ?case
    unfolding u by (simp only: list.map h t)
qed

lemma rangeKeys_any_order:
  assumes "distinct ks" and "set ks = set hand"
  shows "\<exists>rk. rangeKeys rk hand = ks"
proof -
  let ?rk = "\<lambda>k. length (takeWhile (\<lambda>x. x \<noteq> k) ks)"
  from position_ranks[of "[]" ks] assms(1)
  have m: "map ?rk ks = [0 ..< length ks]" by simp
  then have s: "sorted (map ?rk ks)" and dm: "distinct (map ?rk ks)"
    by simp_all
  from dm have inj: "inj_on ?rk (set ks)"
    by (simp add: distinct_map)
  have "rangeKeys ?rk hand = ks"
  proof (rule map_sorted_distinct_set_unique[where f = ?rk])
    show "inj_on ?rk (set (rangeKeys ?rk hand) \<union> set ks)"
      using inj assms(2) by simp
    show "sorted (map ?rk (rangeKeys ?rk hand))"
      by (simp add: rangeKeys_def)
    show "distinct (map ?rk (rangeKeys ?rk hand))"
      using inj assms(2) by (simp add: distinct_map)
    show "sorted (map ?rk ks)" by (rule s)
    show "distinct (map ?rk ks)" by (rule dm)
    show "set (rangeKeys ?rk hand) = set ks"
      using assms(2) by simp
  qed
  then show ?thesis by blast
qed

text \<open>
  C8. Determinism of the core fails on the code. In the state \<open>rookCheck\<close>, reached from
  the initial position in six legal plies and not over, First holds a Pawn and a Silver,
  and the two orders in which \<^verbatim>\<open>range uniquePieces\<close> may visit these two kinds give two
  different move sequences of \<^verbatim>\<open>GetAllLegalMoves\<close> (the thirteenth move is the first drop:
  of the Pawn under one order, of the Silver under the other), and two different results,
  score and move, of \<^verbatim>\<open>Minimax\<close> called with the same board, depth and window.
\<close>

theorem map_order_observable:
  "reachable rookCheck \<and> \<not> fst (IsGameOver rookCheck)
   \<and> map_option (\<lambda>ms. ms ! 12) (GetAllLegalMoves (lowFirst Pawn) rookCheck)
       = Some (Mv (- 1) (- 1) 1 0 True Pawn False)
   \<and> map_option (\<lambda>ms. ms ! 12) (GetAllLegalMoves (lowFirst Silver) rookCheck)
       = Some (Mv (- 1) (- 1) 0 0 True Silver False)
   \<and> GetAllLegalMoves (lowFirst Pawn) rookCheck \<noteq> GetAllLegalMoves (lowFirst Silver) rookCheck
   \<and> Minimax (\<lambda>p. lowFirst Pawn) 1 (- 999999) (- 719) True rookCheck
       = Some (- 700, Some (Mv (- 1) (- 1) 1 0 True Pawn False))
   \<and> Minimax (\<lambda>p. lowFirst Silver) 1 (- 999999) (- 719) True rookCheck
       = Some (- 620, Some (Mv (- 1) (- 1) 0 0 True Silver False))
   \<and> Minimax (\<lambda>p. lowFirst Pawn) 1 (- 999999) (- 719) True rookCheck
       \<noteq> Minimax (\<lambda>p. lowFirst Silver) 1 (- 999999) (- 719) True rookCheck"
proof -
  have g: "\<not> fst (IsGameOver rookCheck)" by code_simp
  have p: "map_option (\<lambda>ms. ms ! 12) (GetAllLegalMoves (lowFirst Pawn) rookCheck)
       = Some (Mv (- 1) (- 1) 1 0 True Pawn False)"
    by code_simp
  have s: "map_option (\<lambda>ms. ms ! 12) (GetAllLegalMoves (lowFirst Silver) rookCheck)
       = Some (Mv (- 1) (- 1) 0 0 True Silver False)"
    by code_simp
  have d: "GetAllLegalMoves (lowFirst Pawn) rookCheck \<noteq> GetAllLegalMoves (lowFirst Silver) rookCheck"
  proof
    assume "GetAllLegalMoves (lowFirst Pawn) rookCheck = GetAllLegalMoves (lowFirst Silver) rookCheck"
    with p s show False by simp
  qed
  have mp: "Minimax (\<lambda>p. lowFirst Pawn) 1 (- 999999) (- 719) True rookCheck
       = Some (- 700, Some (Mv (- 1) (- 1) 1 0 True Pawn False))"
    by code_simp
  have ms: "Minimax (\<lambda>p. lowFirst Silver) 1 (- 999999) (- 719) True rookCheck
       = Some (- 620, Some (Mv (- 1) (- 1) 0 0 True Silver False))"
    by code_simp
  have dm: "Minimax (\<lambda>p. lowFirst Pawn) 1 (- 999999) (- 719) True rookCheck
       \<noteq> Minimax (\<lambda>p. lowFirst Silver) 1 (- 999999) (- 719) True rookCheck"
    unfolding mp ms by simp
  show ?thesis
    by (intro conjI reachable_rookCheck g p s d mp ms dm)
qed

end
